theory Spec2Isabelle
  imports Main "HOL-Library.Multiset"
begin

section \<open>JavaScript strings\<close>

text \<open>
  Statuses, company names and titles are JavaScript strings. They are modelled as
  \<open>string\<close> (a list of 8-bit characters) holding ASCII text: \<open>trim\<close> removes the ASCII
  white space characters that JavaScript's \<open>String.prototype.trim\<close> and the regular
  expression class \<open>\s\<close> remove, and \<open>toLowerCase\<close> maps \<open>A..Z\<close> to \<open>a..z\<close>. Unicode white
  space, non-ASCII case mappings and the typographic quotes and dashes of
  \<open>MJM_parseBodyForStatus\<close>'s punctuation class lie outside this model.
\<close>

definition isWhiteSpace :: "char \<Rightarrow> bool" where
  "isWhiteSpace c = (c \<in> set [CHR 0x09, CHR 0x0A, CHR 0x0B, CHR 0x0C, CHR 0x0D, CHR '' ''])"

definition trim :: "string \<Rightarrow> string" where
  "trim s = rev (dropWhile isWhiteSpace (rev (dropWhile isWhiteSpace s)))"

definition lowerChar :: "char \<Rightarrow> char" where
  "lowerChar c =
     (case map_of (zip ''ABCDEFGHIJKLMNOPQRSTUVWXYZ'' ''abcdefghijklmnopqrstuvwxyz'') c of
        Some d \<Rightarrow> d
      | None \<Rightarrow> c)"

definition toLowerCase :: "string \<Rightarrow> string" where
  "toLowerCase s = map lowerChar s"

text \<open>\<open>a || b\<close> on strings: the empty string is falsy.\<close>

definition orElse :: "string \<Rightarrow> string \<Rightarrow> string" where
  "orElse a b = (if a = [] then b else a)"

section \<open>Configuration (MJM\_Config.gs, Global\_Constants.gs)\<close>

definition MANUAL_REVIEW_NEEDED_TEXT :: string where
  "MANUAL_REVIEW_NEEDED_TEXT = ''N/A - Manual Review''"

definition MJM_APP_DEFAULT_STATUS :: string where
  "MJM_APP_DEFAULT_STATUS = ''Applied''"

definition MJM_APP_REJECTED_STATUS :: string where
  "MJM_APP_REJECTED_STATUS = ''Rejected''"

definition MJM_APP_OFFER_STATUS :: string where
  "MJM_APP_OFFER_STATUS = ''Offer Received''"

definition MJM_APP_ACCEPTED_STATUS :: string where
  "MJM_APP_ACCEPTED_STATUS = ''Offer Accepted''"

definition MJM_APP_INTERVIEW_STATUS :: string where
  "MJM_APP_INTERVIEW_STATUS = ''Interview Scheduled''"

definition MJM_APP_ASSESSMENT_STATUS :: string where
  "MJM_APP_ASSESSMENT_STATUS = ''Assessment/Screening''"

definition MJM_APP_VIEWED_STATUS :: string where
  "MJM_APP_VIEWED_STATUS = ''Application Viewed''"

definition MJM_APP_STATUS_HIERARCHY :: "(string \<times> int) list" where
  "MJM_APP_STATUS_HIERARCHY =
     [(MANUAL_REVIEW_NEEDED_TEXT, -1),
      (''Update/Other'', 0),
      (MJM_APP_DEFAULT_STATUS, 1),
      (MJM_APP_VIEWED_STATUS, 2),
      (MJM_APP_ASSESSMENT_STATUS, 3),
      (MJM_APP_INTERVIEW_STATUS, 4),
      (MJM_APP_OFFER_STATUS, 5),
      (MJM_APP_REJECTED_STATUS, 5),
      (MJM_APP_ACCEPTED_STATUS, 6)]"

text \<open>
  \<open>MJM_APP_STATUS_HIERARCHY[s] ?? d\<close>: the rank of a status that is a key of the
  table, the default \<open>d\<close> of the call site otherwise (the status merge uses 0, the
  peak computation -2). Only the table's own keys are looked up; the properties every
  JavaScript object inherits (\<open>constructor\<close>, \<open>toString\<close>, ...) are not modelled as
  statuses.
\<close>

definition hierarchyRank :: "string \<Rightarrow> int \<Rightarrow> int" where
  "hierarchyRank s d = (case map_of MJM_APP_STATUS_HIERARCHY s of Some r \<Rightarrow> r | None \<Rightarrow> d)"

text \<open>The set \<open>excludedPeak\<close> / \<open>excludedPInit\<close> of statuses that never become a peak.\<close>

definition excludedPeak :: "string list" where
  "excludedPeak =
     [MJM_APP_REJECTED_STATUS, MJM_APP_ACCEPTED_STATUS, MANUAL_REVIEW_NEEDED_TEXT, ''Update/Other'']"

section \<open>The Applications sheet\<close>

text \<open>
  A cell of a date column holds a \<open>Date\<close> (milliseconds since the epoch, or an invalid
  date whose \<open>getTime()\<close> is \<open>NaN\<close>) or text; a blank cell reads as the empty text.
\<close>

datatype cell = DateCell int | InvalidDateCell | StrCell string

text \<open>One data row: the eleven columns \<open>MJM_APP_*_COL\<close> in their configured order.\<close>

record app_row =
  processedTimestampCol :: cell
  emailDateCol :: cell
  platformCol :: string
  companyCol :: string
  jobTitleCol :: string
  statusCol :: string
  peakStatusCol :: string
  lastUpdateDateCol :: cell
  emailSubjectCol :: string
  emailLinkCol :: string
  emailIdCol :: string

text \<open>An entry of \<open>applicationDataCache\<close>.\<close>

record cache_entry =
  rowNum :: nat
  emailId :: string
  company :: string
  title :: string
  status :: string
  peakStatus :: string

text \<open>
  One message after extraction (the Gemini call and the regular-expression fallback):
  what the reconciliation part of the loop body of \<open>MJM_processJobApplicationEmails\<close>
  reads. \<open>extractedStatus\<close> is \<open>None\<close> for \<open>null\<close>.
\<close>

record app_event =
  messageId :: string
  emailDate :: int
  emailSubject :: string
  detectedPlatform :: string
  extractedCompany :: string
  extractedTitle :: string
  extractedStatus :: "string option"

text \<open>\<open>finalStatusToLog = extractedStatus || MJM_APP_DEFAULT_STATUS\<close>.\<close>

definition finalStatusToLog :: "app_event \<Rightarrow> string" where
  "finalStatusToLog ev =
     (case extractedStatus ev of
        None \<Rightarrow> MJM_APP_DEFAULT_STATUS
      | Some s \<Rightarrow> orElse s MJM_APP_DEFAULT_STATUS)"

definition emailPermalink :: "app_event \<Rightarrow> string" where
  "emailPermalink ev = ''https://mail.google.com/mail/u/0/#inbox/'' @ messageId ev"

text \<open>
  The time a date cell is compared by, where the loop body has one: \<open>None\<close> stands for
  a blank cell (\<open>null\<close>) and for an invalid date alike, both of which let the message's
  date through. \<open>parseDate\<close> is \<open>new Date(text).getTime()\<close>, \<open>None\<close> when that is \<open>NaN\<close>.
\<close>

definition cellTime :: "(string \<Rightarrow> int option) \<Rightarrow> cell \<Rightarrow> int option" where
  "cellTime parseDate c =
     (case c of
        DateCell t \<Rightarrow> Some t
      | InvalidDateCell \<Rightarrow> None
      | StrCell s \<Rightarrow> (if s = [] then None else parseDate s))"

definition newerDate :: "(string \<Rightarrow> int option) \<Rightarrow> int \<Rightarrow> cell \<Rightarrow> cell" where
  "newerDate parseDate d c =
     (case cellTime parseDate c of
        None \<Rightarrow> DateCell d
      | Some t \<Rightarrow> (if d > t then DateCell d else c))"

section \<open>Reconciling a message into an existing row\<close>

text \<open>\<open>statusInSheet = String(row[STATUS] || MJM_APP_DEFAULT_STATUS).trim()\<close>.\<close>

definition statusInSheet :: "app_row \<Rightarrow> string" where
  "statusInSheet r = trim (orElse (statusCol r) MJM_APP_DEFAULT_STATUS)"

text \<open>The status merge of the update branch.\<close>

definition mergeStatus :: "app_event \<Rightarrow> app_row \<Rightarrow> string" where
  "mergeStatus ev r =
     (if statusInSheet r \<noteq> MJM_APP_ACCEPTED_STATUS \<or> finalStatusToLog ev = MJM_APP_ACCEPTED_STATUS
      then
        (let currentRank = hierarchyRank (statusInSheet r) 0;
             newRank = hierarchyRank (finalStatusToLog ev) 0
         in if newRank \<ge> currentRank \<or> finalStatusToLog ev = MJM_APP_REJECTED_STATUS
                \<or> finalStatusToLog ev = MJM_APP_OFFER_STATUS
            then finalStatusToLog ev
            else statusCol r)
      else statusCol r)"

text \<open>
  The peak computation of the update branch. The peak read is the cache entry's, then
  the row's trimmed cell, then the default.
\<close>

definition peakRead :: "cache_entry \<Rightarrow> app_row \<Rightarrow> string" where
  "peakRead e r = orElse (peakStatus e) (orElse (trim (peakStatusCol r)) MJM_APP_DEFAULT_STATUS)"

definition mergePeak :: "string \<Rightarrow> string \<Rightarrow> string" where
  "mergePeak peak updatedStatusInSheet =
     (if hierarchyRank updatedStatusInSheet (-2) > hierarchyRank peak (-2)
         \<and> updatedStatusInSheet \<notin> set excludedPeak
      then updatedStatusInSheet
      else if peak = MJM_APP_DEFAULT_STATUS \<and> updatedStatusInSheet \<notin> set excludedPeak
         \<and> hierarchyRank updatedStatusInSheet 0 > hierarchyRank MJM_APP_DEFAULT_STATUS 0
      then updatedStatusInSheet
      else peak)"

definition mergeField :: "string \<Rightarrow> string \<Rightarrow> string" where
  "mergeField extracted stored =
     (if extracted \<noteq> MANUAL_REVIEW_NEEDED_TEXT
         \<and> (stored = MANUAL_REVIEW_NEEDED_TEXT \<or> toLowerCase stored \<noteq> toLowerCase extracted)
      then extracted
      else stored)"

text \<open>
  The row written by the update branch: \<open>now\<close> is \<open>new Date()\<close>, \<open>e\<close> the matched cache
  entry and \<open>r\<close> the row as read from the sheet.
\<close>

definition updateRow :: "(string \<Rightarrow> int option) \<Rightarrow> int \<Rightarrow> app_event \<Rightarrow> cache_entry \<Rightarrow> app_row \<Rightarrow> app_row" where
  "updateRow parseDate now ev e r =
     (let updatedStatusInSheet = mergeStatus ev r
      in r\<lparr>processedTimestampCol := DateCell now,
           emailDateCol := newerDate parseDate (emailDate ev) (emailDateCol r),
           lastUpdateDateCol := newerDate parseDate (emailDate ev) (lastUpdateDateCol r),
           emailSubjectCol := emailSubject ev,
           emailLinkCol := emailPermalink ev,
           emailIdCol := messageId ev,
           platformCol := detectedPlatform ev,
           companyCol := mergeField (extractedCompany ev) (companyCol r),
           jobTitleCol := mergeField (extractedTitle ev) (jobTitleCol r),
           statusCol := updatedStatusInSheet,
           peakStatusCol := mergePeak (peakRead e r) updatedStatusInSheet\<rparr>)"

text \<open>\<open>Object.assign(cacheItem, {...})\<close> after the row is written.\<close>

definition updateEntry :: "app_event \<Rightarrow> app_row \<Rightarrow> cache_entry \<Rightarrow> cache_entry" where
  "updateEntry ev r' e =
     e\<lparr>status := statusCol r', peakStatus := peakStatusCol r', emailId := messageId ev,
       company := companyCol r', title := jobTitleCol r'\<rparr>"

section \<open>Appending a new row\<close>

definition initPeak :: "app_event \<Rightarrow> string" where
  "initPeak ev =
     (if finalStatusToLog ev \<notin> set excludedPeak then finalStatusToLog ev
      else MJM_APP_DEFAULT_STATUS)"

definition newRow :: "int \<Rightarrow> app_event \<Rightarrow> app_row" where
  "newRow now ev =
     \<lparr>processedTimestampCol = DateCell now,
      emailDateCol = DateCell (emailDate ev),
      platformCol = detectedPlatform ev,
      companyCol = extractedCompany ev,
      jobTitleCol = extractedTitle ev,
      statusCol = finalStatusToLog ev,
      peakStatusCol = initPeak ev,
      lastUpdateDateCol = DateCell (emailDate ev),
      emailSubjectCol = emailSubject ev,
      emailLinkCol = emailPermalink ev,
      emailIdCol = messageId ev\<rparr>"

definition newEntry :: "nat \<Rightarrow> app_event \<Rightarrow> cache_entry" where
  "newEntry newRowNum ev =
     \<lparr>rowNum = newRowNum, emailId = messageId ev, company = extractedCompany ev,
      title = extractedTitle ev, status = finalStatusToLog ev, peakStatus = initPeak ev\<rparr>"

section \<open>The staleness sweep\<close>

definition MJM_STALE_WEEKS_THRESHOLD :: int where
  "MJM_STALE_WEEKS_THRESHOLD = 7"

definition MJM_STALE_FINAL_STATUSES_FOR_CHECK :: "string list" where
  "MJM_STALE_FINAL_STATUSES_FOR_CHECK =
     [MJM_APP_REJECTED_STATUS, MJM_APP_ACCEPTED_STATUS, ''Withdrawn'']"

definition msPerDay :: int where
  "msPerDay = 86400000"

text \<open>
  \<open>staleDateThreshold.setDate(currentDate.getDate() - MJM_STALE_WEEKS_THRESHOLD * 7)\<close>
  moves the date back on the local calendar and keeps the local time of day. In
  milliseconds that is 49 days back, shifted by \<open>tzShift\<close>: the difference between the
  local zone's offsets from UTC at the two moments (0 unless a daylight-saving change
  lies between them).
\<close>

definition staleDateThreshold :: "int \<Rightarrow> int \<Rightarrow> int" where
  "staleDateThreshold currentDate tzShift =
     currentDate - MJM_STALE_WEEKS_THRESHOLD * 7 * msPerDay + tzShift"

text \<open>
  The last-update date the sweep reads from a row, \<open>None\<close> where the loop skips the row
  (\<open>continue\<close>) for a missing or unparseable date.
\<close>

definition lastUpdateDateObject :: "(string \<Rightarrow> int option) \<Rightarrow> cell \<Rightarrow> int option" where
  "lastUpdateDateObject parseDate c =
     (case c of
        DateCell t \<Rightarrow> Some t
      | InvalidDateCell \<Rightarrow> None
      | StrCell s \<Rightarrow> (if s \<noteq> [] \<and> trim s \<noteq> [] then parseDate s else None))"

definition isStale :: "(string \<Rightarrow> int option) \<Rightarrow> int \<Rightarrow> app_row \<Rightarrow> bool" where
  "isStale parseDate threshold r =
     (let currentAppStatus = trim (statusCol r)
      in case lastUpdateDateObject parseDate (lastUpdateDateCol r) of
           None \<Rightarrow> False
         | Some t \<Rightarrow>
             (if currentAppStatus \<in> set MJM_STALE_FINAL_STATUSES_FOR_CHECK \<or> currentAppStatus = []
                 \<or> currentAppStatus = MANUAL_REVIEW_NEEDED_TEXT
              then False
              else if t \<ge> threshold then False
              else True))"

definition markStale :: "int \<Rightarrow> app_row \<Rightarrow> app_row" where
  "markStale currentDate r =
     r\<lparr>statusCol := MJM_APP_REJECTED_STATUS,
       lastUpdateDateCol := DateCell currentDate,
       processedTimestampCol := DateCell currentDate\<rparr>"

text \<open>
  The loop over the data rows: the rows as they stand in \<open>allSheetValues\<close> afterwards
  and \<open>updatedStaleApplicationsCount\<close>.
\<close>

fun sweepRows :: "(string \<Rightarrow> int option) \<Rightarrow> int \<Rightarrow> int \<Rightarrow> app_row list \<Rightarrow> app_row list \<times> nat" where
  "sweepRows parseDate currentDate threshold [] = ([], 0)"
| "sweepRows parseDate currentDate threshold (r # rs) =
     (let (rs', n) = sweepRows parseDate currentDate threshold rs
      in if isStale parseDate threshold r then (markStale currentDate r # rs', Suc n)
         else (r # rs', n))"

text \<open>
  The sheet as \<open>getDataRange().getValues()\<close> returns it: the header row and the data rows.
\<close>

record sheet =
  headerRow :: "string list"
  dataRows :: "app_row list"

text \<open>
  \<open>MJM_markStaleApplicationsAsRejected\<close>: the values it writes back with
  \<open>allDataRange.setValues\<close>, or \<open>None\<close> when it returns without writing.
\<close>

definition MJM_markStaleApplicationsAsRejected ::
  "(string \<Rightarrow> int option) \<Rightarrow> int \<Rightarrow> int \<Rightarrow> sheet \<Rightarrow> sheet option" where
  "MJM_markStaleApplicationsAsRejected parseDate currentDate tzShift sh =
     (if dataRows sh = [] then None
      else
        (let (rows', updatedStaleApplicationsCount) =
               sweepRows parseDate currentDate (staleDateThreshold currentDate tzShift) (dataRows sh)
         in if updatedStaleApplicationsCount > 0 then Some (sh\<lparr>dataRows := rows'\<rparr>)
            else None))"

text \<open>The sheet after the sweep: what was written, or the sheet as it was.\<close>

definition afterSweep :: "(string \<Rightarrow> int option) \<Rightarrow> int \<Rightarrow> int \<Rightarrow> sheet \<Rightarrow> sheet" where
  "afterSweep parseDate currentDate tzShift sh =
     (case MJM_markStaleApplicationsAsRejected parseDate currentDate tzShift sh of
        None \<Rightarrow> sh
      | Some sh' \<Rightarrow> sh')"

section \<open>One record through its life\<close>

text \<open>
  The cache entry of a row as \<open>MJM_processJobApplicationEmails\<close> preloads it at the start
  of a run: every field is \<open>String(cell || "").trim()\<close>.
\<close>

definition loadEntry :: "nat \<Rightarrow> app_row \<Rightarrow> cache_entry" where
  "loadEntry n r =
     \<lparr>rowNum = n, emailId = trim (emailIdCol r), company = trim (companyCol r),
      title = trim (jobTitleCol r), status = trim (statusCol r),
      peakStatus = trim (peakStatusCol r)\<rparr>"

text \<open>
  A single record is a sheet row together with its cache entry. Within a run the entry is
  the object the loop keeps in step with the row; a new run builds it again from the row.
  Between runs the daily sweep may mark the row stale.
\<close>

record rec_state =
  sheetRow :: app_row
  cacheItem :: cache_entry

datatype action = Reconcile int app_event | NewRun | Sweep int int

definition created :: "int \<Rightarrow> nat \<Rightarrow> app_event \<Rightarrow> rec_state" where
  "created now newRowNum ev = \<lparr>sheetRow = newRow now ev, cacheItem = newEntry newRowNum ev\<rparr>"

definition reconcile :: "(string \<Rightarrow> int option) \<Rightarrow> int \<Rightarrow> app_event \<Rightarrow> rec_state \<Rightarrow> rec_state" where
  "reconcile parseDate now ev s =
     (let r' = updateRow parseDate now ev (cacheItem s) (sheetRow s)
      in \<lparr>sheetRow = r', cacheItem = updateEntry ev r' (cacheItem s)\<rparr>)"

definition newRun :: "rec_state \<Rightarrow> rec_state" where
  "newRun s = s\<lparr>cacheItem := loadEntry (rowNum (cacheItem s)) (sheetRow s)\<rparr>"

definition sweepRecord :: "(string \<Rightarrow> int option) \<Rightarrow> int \<Rightarrow> int \<Rightarrow> rec_state \<Rightarrow> rec_state" where
  "sweepRecord parseDate currentDate tzShift s =
     s\<lparr>sheetRow :=
         (if isStale parseDate (staleDateThreshold currentDate tzShift) (sheetRow s)
          then markStale currentDate (sheetRow s)
          else sheetRow s)\<rparr>"

fun step :: "(string \<Rightarrow> int option) \<Rightarrow> action \<Rightarrow> rec_state \<Rightarrow> rec_state" where
  "step parseDate (Reconcile now ev) s = reconcile parseDate now ev s"
| "step parseDate NewRun s = newRun s"
| "step parseDate (Sweep currentDate tzShift) s = sweepRecord parseDate currentDate tzShift s"

fun runActions :: "(string \<Rightarrow> int option) \<Rightarrow> action list \<Rightarrow> rec_state \<Rightarrow> rec_state" where
  "runActions parseDate [] s = s"
| "runActions parseDate (a # as) s = runActions parseDate as (step parseDate a s)"

text \<open>The rank the peak computation gives a status: \<open>MJM_APP_STATUS_HIERARCHY[s] ?? -2\<close>.\<close>

definition peakRank :: "rec_state \<Rightarrow> int" where
  "peakRank s = hierarchyRank (peakStatusCol (sheetRow s)) (-2)"

section \<open>The application cache and identity resolution\<close>

text \<open>
  \<open>applicationDataCache\<close> is a plain object \<open>{}\<close> from lower-cased company names to arrays
  of entries. Its own properties are modelled as an association list in insertion order
  with one pair per key. Reading \<open>applicationDataCache[k]\<close> finds an own property, or else
  what the object inherits from \<open>Object.prototype\<close>. For each inherited name the table
  records whether the inherited value has a \<open>length\<close> greater than 0 (the number of
  parameters of a function; \<open>Object.prototype\<close> itself, found under \<open>__proto__\<close>, has no
  \<open>length\<close>). Every inherited value is truthy, and none has a \<open>push\<close>, \<open>find\<close> or \<open>sort\<close>
  method: calling one throws a \<open>TypeError\<close>.
\<close>

datatype error = TypeError

type_synonym cache = "(string \<times> cache_entry list) list"

definition objectPrototype :: "(string \<times> bool) list" where
  "objectPrototype =
     [(''constructor'', True), (''__defineGetter__'', True), (''__defineSetter__'', True),
      (''hasOwnProperty'', True), (''__lookupGetter__'', True), (''__lookupSetter__'', True),
      (''isPrototypeOf'', True), (''propertyIsEnumerable'', True), (''toString'', False),
      (''valueOf'', False), (''__proto__'', False), (''toLocaleString'', False)]"

datatype property = Own "cache_entry list" | Inherited bool | Undefined

definition cacheGet :: "cache \<Rightarrow> string \<Rightarrow> property" where
  "cacheGet c k =
     (case map_of c k of
        Some es \<Rightarrow> Own es
      | None \<Rightarrow>
          (case map_of objectPrototype k of
             Some lengthPositive \<Rightarrow> Inherited lengthPositive
           | None \<Rightarrow> Undefined))"

fun cachePut :: "cache \<Rightarrow> string \<Rightarrow> cache_entry list \<Rightarrow> cache" where
  "cachePut [] k es = [(k, es)]"
| "cachePut ((k', es') # c) k es =
     (if k' = k then (k, es) # c else (k', es') # cachePut c k es)"

text \<open>
  \<open>cachePush\<close> is \<open>if (!cache[k]) cache[k] = []; cache[k].push(e)\<close>: under an inherited
  name nothing is assigned and \<open>push\<close> throws.
\<close>

definition cachePush :: "cache \<Rightarrow> string \<Rightarrow> cache_entry \<Rightarrow> error + cache" where
  "cachePush c k e =
     (case cacheGet c k of
        Undefined \<Rightarrow> Inr (cachePut c k [e])
      | Own es \<Rightarrow> Inr (cachePut c k (es @ [e]))
      | Inherited lengthPositive \<Rightarrow> Inl TypeError)"

text \<open>The key a sheet row is cached under, and the rows the preload leaves out.\<close>

definition companyLCKey :: "app_row \<Rightarrow> string" where
  "companyLCKey r = toLowerCase (trim (companyCol r))"

definition cachedKey :: "string \<Rightarrow> bool" where
  "cachedKey k = (k \<noteq> [] \<and> k \<noteq> toLowerCase MANUAL_REVIEW_NEEDED_TEXT \<and> k \<noteq> ''n/a'')"

text \<open>
  The preload loop \<open>cacheRangeValues.forEach((rowValues, sheetRowIndex) => ...)\<close>: data row
  \<open>sheetRowIndex\<close> (from 0) is sheet row \<open>sheetRowIndex + 2\<close>. The loop runs inside a
  \<open>try\<close> whose \<open>catch\<close> only logs: when \<open>push\<close> throws, the preload ends there and the run
  goes on with the cache as filled so far.
\<close>

fun preloadRows :: "nat \<Rightarrow> app_row list \<Rightarrow> cache \<Rightarrow> cache" where
  "preloadRows sheetRowIndex [] c = c"
| "preloadRows sheetRowIndex (r # rs) c =
     (if cachedKey (companyLCKey r)
      then
        (case cachePush c (companyLCKey r) (loadEntry (sheetRowIndex + 2) r) of
           Inl err \<Rightarrow> c
         | Inr c' \<Rightarrow> preloadRows (Suc sheetRowIndex) rs c')
      else preloadRows (Suc sheetRowIndex) rs c)"

definition preloadCache :: "app_row list \<Rightarrow> cache" where
  "preloadCache rows = preloadRows 0 rows []"

text \<open>
  Identity resolution (the block that sets \<open>existingApplicationEntry\<close>), for one message
  against the cache as the run has it at that moment. \<open>matches.sort\<close> sorts the cached
  array in place, so the cache is returned as well; JavaScript's sort is stable, as
  \<open>sort_key\<close> is. Where \<open>matches\<close> is an inherited value, \<open>matches.find\<close> throws, and so
  does \<open>matches.sort\<close> when \<open>matches.length > 0\<close> lets it be called.
\<close>

definition titleMatches :: "string \<Rightarrow> cache_entry \<Rightarrow> bool" where
  "titleMatches exTitle e = (toLowerCase (title e) = toLowerCase exTitle)"

definition findByTitle :: "string \<Rightarrow> cache_entry list \<Rightarrow> cache_entry option" where
  "findByTitle exTitle matches = find (titleMatches exTitle) matches"

definition sortByRowNumDesc :: "cache_entry list \<Rightarrow> cache_entry list" where
  "sortByRowNumDesc matches = sort_key (\<lambda>e. - int (rowNum e)) matches"

definition resolveEntry ::
  "cache \<Rightarrow> string \<Rightarrow> string \<Rightarrow> error + (cache_entry option \<times> cache)" where
  "resolveEntry c exCompany exTitle =
     (let companyCacheKeyForSearch = toLowerCase exCompany
      in if exCompany \<noteq> MANUAL_REVIEW_NEEDED_TEXT
         then
           (case cacheGet c companyCacheKeyForSearch of
              Undefined \<Rightarrow> Inr (None, c)
            | Inherited lengthPositive \<Rightarrow>
                (if exTitle \<noteq> MANUAL_REVIEW_NEEDED_TEXT then Inl TypeError
                 else if lengthPositive then Inl TypeError
                 else Inr (None, c))
            | Own matches \<Rightarrow>
                (case (if exTitle \<noteq> MANUAL_REVIEW_NEEDED_TEXT
                       then findByTitle exTitle matches else None) of
                   Some e \<Rightarrow> Inr (Some e, c)
                 | None \<Rightarrow>
                     (case sortByRowNumDesc matches of
                        [] \<Rightarrow> Inr (None, c)
                      | e # es \<Rightarrow> Inr (Some e, cachePut c companyCacheKeyForSearch (e # es)))))
         else Inr (None, c))"

text \<open>
  \<open>sheetRowNumberToUpdate\<close> as identity resolution leaves it for one message: the row
  number of the entry found, \<open>None\<close> for the initial \<open>-1\<close>.
\<close>

definition sheetRowNumberToUpdate :: "cache \<Rightarrow> string \<Rightarrow> string \<Rightarrow> error + nat option" where
  "sheetRowNumberToUpdate c exCompany exTitle =
     (case resolveEntry c exCompany exTitle of
        Inl err \<Rightarrow> Inl err
      | Inr (existingApplicationEntry, c') \<Rightarrow> Inr (map_option rowNum existingApplicationEntry))"

text \<open>
  The rows the preload gets through: those before the first row whose key is a name the
  cache object inherits, where \<open>push\<close> throws. Then the entries the preload files under
  key \<open>k\<close>, in sheet order, and the two tests identity resolution applies to a row: the
  row is cached under the lower-cased extracted company, and its trimmed title equals the
  extracted title up to letter case.
\<close>

definition rowsPreloaded :: "app_row list \<Rightarrow> app_row list" where
  "rowsPreloaded rows = takeWhile (\<lambda>r. map_of objectPrototype (companyLCKey r) = None) rows"

fun entriesFor :: "string \<Rightarrow> nat \<Rightarrow> app_row list \<Rightarrow> cache_entry list" where
  "entriesFor k n [] = []"
| "entriesFor k n (r # rs) =
     (if cachedKey (companyLCKey r) \<and> companyLCKey r = k then [loadEntry (n + 2) r] else [])
       @ entriesFor k (Suc n) rs"

definition sameCompany :: "string \<Rightarrow> app_row \<Rightarrow> bool" where
  "sameCompany exCompany r =
     (cachedKey (companyLCKey r) \<and> companyLCKey r = toLowerCase exCompany)"

definition sameTitle :: "string \<Rightarrow> app_row \<Rightarrow> bool" where
  "sameTitle exTitle r = (toLowerCase (trim (jobTitleCol r)) = toLowerCase exTitle)"

section \<open>Selecting the messages of a run\<close>

record gmail_message =
  getId :: string
  getDate :: int

record gmail_thread =
  threadId :: string
  getMessages :: "gmail_message list"

record new_message =
  messageObj :: gmail_message
  gmailThreadId :: string

text \<open>
  \<open>emailIdsAlreadyInSheet\<close>: the non-empty \<open>emailId\<close>s of the entries of the cache,
  \<open>Object.values(applicationDataCache).flat()\<close>.
\<close>

definition cacheEntries :: "cache \<Rightarrow> cache_entry list" where
  "cacheEntries c = concat (map snd c)"

definition emailIdsAlreadyInSheet :: "cache \<Rightarrow> string list" where
  "emailIdsAlreadyInSheet c = filter (\<lambda>i. i \<noteq> []) (map emailId (cacheEntries c))"

text \<open>
  The scan of the threads under the to-process label. The state is \<open>newMessagesList\<close> and
  \<open>alreadyProcessedMsgIdsThisRun\<close>.
\<close>

fun scanMessages ::
  "string list \<Rightarrow> string \<Rightarrow> gmail_message list \<Rightarrow> new_message list \<times> string list
     \<Rightarrow> new_message list \<times> string list" where
  "scanMessages inSheet tid [] st = st"
| "scanMessages inSheet tid (msg # msgs) (newMessagesList, alreadyProcessed) =
     scanMessages inSheet tid msgs
       (if getId msg \<notin> set inSheet \<and> getId msg \<notin> set alreadyProcessed
        then (newMessagesList @ [\<lparr>messageObj = msg, gmailThreadId = tid\<rparr>],
              alreadyProcessed @ [getId msg])
        else (newMessagesList, alreadyProcessed))"

fun scanThreads ::
  "string list \<Rightarrow> gmail_thread list \<Rightarrow> new_message list \<times> string list
     \<Rightarrow> new_message list \<times> string list" where
  "scanThreads inSheet [] st = st"
| "scanThreads inSheet (t # ts) st =
     scanThreads inSheet ts (scanMessages inSheet (threadId t) (getMessages t) st)"

text \<open>
  \<open>newMessagesList\<close> of a run over the sheet's data rows and the threads scanned, sorted
  by message date.
\<close>

definition newMessagesList :: "app_row list \<Rightarrow> gmail_thread list \<Rightarrow> new_message list" where
  "newMessagesList rows threads =
     sort_key (\<lambda>m. getDate (messageObj m))
       (fst (scanThreads (emailIdsAlreadyInSheet (preloadCache rows)) threads ([], [])))"

section \<open>The processing loop\<close>

text \<open>
  Rows are read and written by sheet row number; data row \<open>i\<close> (from 0) is sheet row
  \<open>i + 2\<close>. A row below the last one reads as blank cells, and writing it extends the
  sheet. (The cache only ever holds the numbers of existing data rows: \<open>rowNumsValid\<close>
  below is an invariant of the loop.)
\<close>

definition blankRow :: app_row where
  "blankRow =
     \<lparr>processedTimestampCol = StrCell [], emailDateCol = StrCell [], platformCol = [],
      companyCol = [], jobTitleCol = [], statusCol = [], peakStatusCol = [],
      lastUpdateDateCol = StrCell [], emailSubjectCol = [], emailLinkCol = [], emailIdCol = []\<rparr>"

definition readRow :: "app_row list \<Rightarrow> nat \<Rightarrow> app_row" where
  "readRow rows n = (if n - 2 < length rows then rows ! (n - 2) else blankRow)"

definition writeRow :: "app_row list \<Rightarrow> nat \<Rightarrow> app_row \<Rightarrow> app_row list" where
  "writeRow rows n r =
     (if n - 2 < length rows then rows[n - 2 := r]
      else rows @ replicate (n - 2 - length rows) blankRow @ [r])"

text \<open>
  \<open>Object.assign(cacheItem, ...)\<close> on
  \<open>applicationDataCache[key]?.find(e => e.rowNum === sheetRowNumberToUpdate)\<close>.
\<close>

fun assignFirst :: "nat \<Rightarrow> (cache_entry \<Rightarrow> cache_entry) \<Rightarrow> cache_entry list \<Rightarrow> cache_entry list" where
  "assignFirst n upd [] = []"
| "assignFirst n upd (e # es) =
     (if rowNum e = n then upd e # es else e # assignFirst n upd es)"

definition cacheAssign ::
  "cache \<Rightarrow> string \<Rightarrow> nat \<Rightarrow> (cache_entry \<Rightarrow> cache_entry) \<Rightarrow> error + cache" where
  "cacheAssign c k n upd =
     (case cacheGet c k of
        Undefined \<Rightarrow> Inr c
      | Own es \<Rightarrow> Inr (cachePut c k (assignFirst n upd es))
      | Inherited lengthPositive \<Rightarrow> Inl TypeError)"

text \<open>
  The reconciliation part of the loop body for one message, on the sheet's data rows and
  the cache: resolve, then update the matched row or append a new one. Sheet writes are
  taken to succeed. The body runs inside a \<open>try\<close> whose \<open>catch (errInner)\<close> logs and goes
  on to the next message: an exception thrown by the resolution leaves sheet and cache as
  they were, and one thrown by the cache update after the sheet write leaves the row
  written and the cache as it was.
\<close>

definition processMessage ::
  "(string \<Rightarrow> int option) \<Rightarrow> int \<Rightarrow> app_event \<Rightarrow> app_row list \<times> cache \<Rightarrow> app_row list \<times> cache" where
  "processMessage parseDate now ev st =
     (let (rows, c) = st
      in case resolveEntry c (extractedCompany ev) (extractedTitle ev) of
           Inl err \<Rightarrow> (rows, c)
         | Inr (existingApplicationEntry, c1) \<Rightarrow>
             (case existingApplicationEntry of
                Some e \<Rightarrow>
                  (let r' = updateRow parseDate now ev e (readRow rows (rowNum e));
                       rows' = writeRow rows (rowNum e) r'
                   in case cacheAssign c1 (toLowerCase (extractedCompany ev)) (rowNum e)
                             (updateEntry ev r') of
                        Inl err \<Rightarrow> (rows', c1)
                      | Inr c2 \<Rightarrow> (rows', c2))
              | None \<Rightarrow>
                  (let rows' = rows @ [newRow now ev];
                       cKeyNew = (if extractedCompany ev \<noteq> MANUAL_REVIEW_NEEDED_TEXT
                                  then toLowerCase (extractedCompany ev)
                                  else ''_mrev_entry_key_'' @ messageId ev)
                   in case cachePush c1 cKeyNew (newEntry (length rows + 2) ev) of
                        Inl err \<Rightarrow> (rows', c1)
                      | Inr c2 \<Rightarrow> (rows', c2))))"

definition MAX_THREADS_TO_SCAN :: nat where
  "MAX_THREADS_TO_SCAN = 15"

definition MAX_MESSAGES_TO_PROCESS_THIS_RUN :: nat where
  "MAX_MESSAGES_TO_PROCESS_THIS_RUN = 20"

text \<open>
  What extraction makes of a message: \<open>extract\<close> stands for the Gemini call and the
  regular-expression fallbacks; the message id and date are the message's own.
\<close>

definition eventOf :: "(gmail_message \<Rightarrow> app_event) \<Rightarrow> gmail_message \<Rightarrow> app_event" where
  "eventOf extract msg = (extract msg)\<lparr>messageId := getId msg, emailDate := getDate msg\<rparr>"

text \<open>
  The loop over \<open>newMessagesList\<close>: \<open>clock\<close> gives the time at which a message's turn
  comes, \<open>scriptStart\<close> is \<open>SCRIPT_START_TIME\<close>, and the loop stops at the message budget
  or after 330 seconds.
\<close>

fun processLoop ::
  "(string \<Rightarrow> int option) \<Rightarrow> (gmail_message \<Rightarrow> int) \<Rightarrow> (gmail_message \<Rightarrow> app_event) \<Rightarrow> int
     \<Rightarrow> nat \<Rightarrow> new_message list \<Rightarrow> app_row list \<times> cache \<Rightarrow> app_row list \<times> cache" where
  "processLoop parseDate clock extract scriptStart processedCount [] st = st"
| "processLoop parseDate clock extract scriptStart processedCount (m # ms) st =
     (if processedCount \<ge> MAX_MESSAGES_TO_PROCESS_THIS_RUN
         \<or> clock (messageObj m) - scriptStart > 330 * 1000
      then st
      else processLoop parseDate clock extract scriptStart (Suc processedCount) ms
             (processMessage parseDate (clock (messageObj m)) (eventOf extract (messageObj m)) st))"

text \<open>
  \<open>MJM_processJobApplicationEmails\<close>, from the data rows of the sheet and the threads
  under the to-process label to the data rows afterwards.
\<close>

definition MJM_processJobApplicationEmails ::
  "(string \<Rightarrow> int option) \<Rightarrow> (gmail_message \<Rightarrow> int) \<Rightarrow> (gmail_message \<Rightarrow> app_event) \<Rightarrow> int
     \<Rightarrow> app_row list \<Rightarrow> gmail_thread list \<Rightarrow> app_row list" where
  "MJM_processJobApplicationEmails parseDate clock extract scriptStart rows threads =
     fst (processLoop parseDate clock extract scriptStart 0
            (newMessagesList rows (take MAX_THREADS_TO_SCAN threads))
            (rows, preloadCache rows))"

section \<open>The keyword fallback for the status (MJM\_ParsingUtils.gs)\<close>

definition MJM_REJECTION_KEYWORDS :: "string list" where
  "MJM_REJECTION_KEYWORDS =
     [''unfortunately'', ''regret to inform'', ''not moving forward'', ''decided not to proceed'',
      ''other candidates'', ''filled the position'', ''thank you for your time but'']"

definition MJM_OFFER_KEYWORDS :: "string list" where
  "MJM_OFFER_KEYWORDS =
     [''pleased to offer'', ''offer of employment'', ''job offer'',
      ''formally offer you the position'']"

definition MJM_INTERVIEW_KEYWORDS :: "string list" where
  "MJM_INTERVIEW_KEYWORDS =
     [''invitation to interview'', ''schedule an interview'', ''interview request'',
      ''like to speak with you'', ''next steps involve an interview'', ''interview availability'']"

definition MJM_ASSESSMENT_KEYWORDS :: "string list" where
  "MJM_ASSESSMENT_KEYWORDS =
     [''assessment'', ''coding challenge'', ''online test'', ''technical screen'',
      ''next step is a skill assessment'', ''take a short test'']"

definition MJM_APP_VIEWED_KEYWORDS :: "string list" where
  "MJM_APP_VIEWED_KEYWORDS =
     [''application was viewed'', ''your application was viewed by'',
      ''recruiter viewed your application'', ''company viewed your application'',
      ''viewed your profile for the role'']"

text \<open>\<open>s.includes(k)\<close>: \<open>k\<close> occurs in \<open>s\<close> as a contiguous substring.\<close>

fun includesStr :: "string \<Rightarrow> string \<Rightarrow> bool" where
  "includesStr [] k = (k = [])"
| "includesStr (c # cs) k = (take (length k) (c # cs) = k \<or> includesStr cs k)"

text \<open>
  The characters of the class \<open>[.,!?;:()\[\]{}'"...\-...]\<close> the normalisation replaces by a
  space (its ASCII members).
\<close>

definition punctuation :: "char list" where
  "punctuation = ''.,!?;:()[]{}-'' @ [CHR 0x27, CHR 0x22]"

definition replacePunctuation :: "string \<Rightarrow> string" where
  "replacePunctuation s = map (\<lambda>c. if c \<in> set punctuation then CHR '' '' else c) s"

text \<open>\<open>.replace(/\s+/g, ' ')\<close>: every maximal run of white space becomes one space.\<close>

function collapseWhiteSpace :: "string \<Rightarrow> string" where
  "collapseWhiteSpace [] = []"
| "collapseWhiteSpace (c # cs) =
     (if isWhiteSpace c then CHR '' '' # collapseWhiteSpace (dropWhile isWhiteSpace cs)
      else c # collapseWhiteSpace cs)"
  by pat_completeness auto
termination
  by (relation "measure length") (auto simp: le_imp_less_Suc length_dropWhile_le)

definition normalizeBody :: "string \<Rightarrow> string" where
  "normalizeBody plainBody =
     trim (collapseWhiteSpace (replacePunctuation (toLowerCase plainBody)))"

definition someIncluded :: "string list \<Rightarrow> string \<Rightarrow> bool" where
  "someIncluded keywords bodyLower = (\<exists>k \<in> set keywords. includesStr bodyLower k)"

text \<open>\<open>MJM_parseBodyForStatus\<close>; \<open>None\<close> is \<open>null\<close>.\<close>

definition MJM_parseBodyForStatus :: "string \<Rightarrow> string option" where
  "MJM_parseBodyForStatus plainBody =
     (if plainBody = [] \<or> length plainBody < 10 then None
      else
        (let bodyLower = normalizeBody plainBody
         in if someIncluded MJM_OFFER_KEYWORDS bodyLower then Some MJM_APP_OFFER_STATUS
            else if someIncluded MJM_INTERVIEW_KEYWORDS bodyLower then Some MJM_APP_INTERVIEW_STATUS
            else if someIncluded MJM_ASSESSMENT_KEYWORDS bodyLower then Some MJM_APP_ASSESSMENT_STATUS
            else if someIncluded MJM_APP_VIEWED_KEYWORDS bodyLower then Some MJM_APP_VIEWED_STATUS
            else if someIncluded MJM_REJECTION_KEYWORDS bodyLower then Some MJM_APP_REJECTED_STATUS
            else None))"

text \<open>
  The fallback as the specification words it: the five keyword sets in their order, the
  status of the first set with a keyword contained in the normalised body.
\<close>

definition keywordSetsInOrder :: "(string list \<times> string) list" where
  "keywordSetsInOrder =
     [(MJM_OFFER_KEYWORDS, MJM_APP_OFFER_STATUS),
      (MJM_INTERVIEW_KEYWORDS, MJM_APP_INTERVIEW_STATUS),
      (MJM_ASSESSMENT_KEYWORDS, MJM_APP_ASSESSMENT_STATUS),
      (MJM_APP_VIEWED_KEYWORDS, MJM_APP_VIEWED_STATUS),
      (MJM_REJECTION_KEYWORDS, MJM_APP_REJECTED_STATUS)]"

definition spec_firstMatchingSet :: "string \<Rightarrow> string option" where
  "spec_firstMatchingSet bodyLower =
     map_option snd (find (\<lambda>ks. someIncluded (fst ks) bodyLower) keywordSetsInOrder)"

section \<open>Invariants of a record\<close>

text \<open>
  Between two steps the cache entry's peak is the row's peak cell: as written (after a
  reconciliation) or trimmed (after a preload).
\<close>

definition peakInSync :: "rec_state \<Rightarrow> bool" where
  "peakInSync s =
     (peakStatus (cacheItem s) = peakStatusCol (sheetRow s)
      \<or> peakStatus (cacheItem s) = trim (peakStatusCol (sheetRow s)))"

definition peakClean :: "rec_state \<Rightarrow> bool" where
  "peakClean s = (peakInSync s \<and> trim (peakStatusCol (sheetRow s)) \<notin> set excludedPeak)"

text \<open>No own property of the cache hides a name the cache object inherits.\<close>

definition noShadowing :: "cache \<Rightarrow> bool" where
  "noShadowing c = (\<forall>k. map_of objectPrototype k \<noteq> None \<longrightarrow> map_of c k = None)"

text \<open>The cache holds only the numbers of data rows of the sheet.\<close>

definition rowNumsValid :: "app_row list \<times> cache \<Rightarrow> bool" where
  "rowNumsValid st =
     (\<forall>e \<in> set (cacheEntries (snd st)). 2 \<le> rowNum e \<and> rowNum e < length (fst st) + 2)"

text \<open>
  What the processing loop maintains between messages: every cached row number points into
  the sheet, no two cache entries share a row number, and each entry's cached peak is the
  trimmed peak cell of its row.
\<close>

definition loopInv :: "app_row list \<times> cache \<Rightarrow> bool" where
  "loopInv st =
     (rowNumsValid st
      \<and> distinct (map rowNum (cacheEntries (snd st)))
      \<and> (\<forall>e \<in> set (cacheEntries (snd st)).
            peakInSync \<lparr>sheetRow = fst st ! (rowNum e - 2), cacheItem = e\<rparr>))"

section \<open>Sample data\<close>

definition row_acme :: app_row where
  "row_acme =
     \<lparr>processedTimestampCol = DateCell 1100, emailDateCol = DateCell 1000,
      platformCol = ''Other'', companyCol = ''Acme'', jobTitleCol = ''Engineer'',
      statusCol = ''Applied'', peakStatusCol = ''Applied'', lastUpdateDateCol = DateCell 1000,
      emailSubjectCol = ''Thanks for applying'',
      emailLinkCol = ''https://mail.google.com/mail/u/0/#inbox/m0'', emailIdCol = ''m0''\<rparr>"

definition ev_applied :: app_event where
  "ev_applied =
     \<lparr>messageId = ''m2'', emailDate = 2000, emailSubject = ''Thanks'',
      detectedPlatform = ''Other'', extractedCompany = ''Acme'', extractedTitle = ''Engineer'',
      extractedStatus = Some ''Applied''\<rparr>"

definition ev_interview :: app_event where
  "ev_interview =
     \<lparr>messageId = ''m3'', emailDate = 2500, emailSubject = ''Interview'',
      detectedPlatform = ''Other'', extractedCompany = ''Acme'', extractedTitle = ''Engineer'',
      extractedStatus = Some ''Interview Scheduled''\<rparr>"

definition ev_offer :: app_event where
  "ev_offer =
     \<lparr>messageId = ''m4'', emailDate = 4000, emailSubject = ''Offer'',
      detectedPlatform = ''Other'', extractedCompany = ''Acme'', extractedTitle = ''Analyst'',
      extractedStatus = Some ''Offer Received''\<rparr>"

definition ev_accepted :: app_event where
  "ev_accepted =
     \<lparr>messageId = ''m5'', emailDate = 5000, emailSubject = ''Welcome'',
      detectedPlatform = ''Other'', extractedCompany = ''Acme'',
      extractedTitle = ''N/A - Manual Review'', extractedStatus = Some ''Offer Accepted''\<rparr>"

definition ev_rejected :: app_event where
  "ev_rejected =
     \<lparr>messageId = ''m6'', emailDate = 6000, emailSubject = ''Update'',
      detectedPlatform = ''Other'', extractedCompany = ''Acme'', extractedTitle = ''Engineer'',
      extractedStatus = Some ''Rejected''\<rparr>"

text \<open>An extractor answer whose status carries a trailing blank.\<close>

definition ev_rejected_padded :: app_event where
  "ev_rejected_padded =
     \<lparr>messageId = ''m1'', emailDate = 1000, emailSubject = ''Update'',
      detectedPlatform = ''Other'', extractedCompany = ''Acme'', extractedTitle = ''Engineer'',
      extractedStatus = Some ''Rejected ''\<rparr>"

text \<open>
  A thread about that application as it grows over two runs, the extraction of its two
  messages (the first with the padded status), and the sheet after the first run.
\<close>

definition thread_padded :: "nat \<Rightarrow> gmail_thread" where
  "thread_padded n =
     \<lparr>threadId = ''t3'',
      getMessages = take n [\<lparr>getId = ''m1'', getDate = 1000\<rparr>, \<lparr>getId = ''m2'', getDate = 2000\<rparr>]\<rparr>"

definition extract_padded :: "gmail_message \<Rightarrow> app_event" where
  "extract_padded msg = (if getId msg = ''m1'' then ev_rejected_padded else ev_applied)"

definition rows_padded_run1 :: "app_row list" where
  "rows_padded_run1 =
     MJM_processJobApplicationEmails (\<lambda>_. None) (\<lambda>_. 1500) extract_padded 1400 []
       [thread_padded 1]"

text \<open>
  A sheet swept at time 10000000000: the first row was last updated eight weeks before,
  the second as well but is accepted, the third was updated recently.
\<close>

definition sheet_stale :: sheet where
  "sheet_stale =
     \<lparr>headerRow = [''Processed Timestamp'', ''Email Date'', ''Platform'', ''Company'', ''Job Title'',
        ''Status'', ''Peak Status'', ''Last Update Date'', ''Email Subject'', ''Email Link'', ''Email ID''],
      dataRows =
        [row_acme\<lparr>lastUpdateDateCol := DateCell 5161600000\<rparr>,
         row_acme\<lparr>companyCol := ''Globex'', statusCol := ''Offer Accepted'',
           lastUpdateDateCol := DateCell 5161600000\<rparr>,
         row_acme\<lparr>companyCol := ''Initech'', lastUpdateDateCol := DateCell 9000000000\<rparr>]\<rparr>"

text \<open>
  Three rows, sheet rows 2 to 4: two applications at Acme, the older one (row 2) updated
  last, and one at Globex.
\<close>

definition rows_two_acme :: "app_row list" where
  "rows_two_acme =
     [row_acme\<lparr>lastUpdateDateCol := DateCell 9000\<rparr>,
      row_acme\<lparr>companyCol := '' ACME '', jobTitleCol := ''Analyst'', emailIdCol := ''m7'',
        lastUpdateDateCol := DateCell 1000\<rparr>,
      row_acme\<lparr>companyCol := ''Globex'', emailIdCol := ''m8''\<rparr>]"

text \<open>
  A message extracted to a given company and title; two rows for the same application at
  Acme; and a sheet whose second row names a company that lower-cases to a name every
  object inherits.
\<close>

definition ev_for :: "string \<Rightarrow> string \<Rightarrow> app_event" where
  "ev_for exCompany exTitle =
     \<lparr>messageId = ''m9'', emailDate = 6500, emailSubject = ''Your application'',
      detectedPlatform = ''Other'', extractedCompany = exCompany, extractedTitle = exTitle,
      extractedStatus = Some ''Applied''\<rparr>"

definition rows_acme_twice :: "app_row list" where
  "rows_acme_twice = [row_acme, row_acme\<lparr>emailIdCol := ''m7''\<rparr>]"

definition rows_constructor :: "app_row list" where
  "rows_constructor =
     [row_acme, row_acme\<lparr>companyCol := ''Constructor'', emailIdCol := ''m7''\<rparr>,
      row_acme\<lparr>companyCol := ''Globex'', emailIdCol := ''m8''\<rparr>]"

text \<open>
  A message neither extractor tier resolves, a thread holding message \<open>m1\<close>, the sheet
  after a first run over that thread (one manual-review row for \<open>m1\<close>), and the thread
  once a second message has arrived in it.
\<close>

definition ev_unresolved :: app_event where
  "ev_unresolved =
     \<lparr>messageId = [], emailDate = 0, emailSubject = ''Hello'',
      detectedPlatform = ''Other'', extractedCompany = MANUAL_REVIEW_NEEDED_TEXT,
      extractedTitle = MANUAL_REVIEW_NEEDED_TEXT, extractedStatus = None\<rparr>"

definition thread_m1 :: gmail_thread where
  "thread_m1 = \<lparr>threadId = ''t1'', getMessages = [\<lparr>getId = ''m1'', getDate = 1000\<rparr>]\<rparr>"

definition thread_m1_m10 :: gmail_thread where
  "thread_m1_m10 =
     \<lparr>threadId = ''t1'',
      getMessages = [\<lparr>getId = ''m1'', getDate = 1000\<rparr>, \<lparr>getId = ''m10'', getDate = 7000\<rparr>]\<rparr>"

definition rows_after_m1 :: "app_row list" where
  "rows_after_m1 =
     MJM_processJobApplicationEmails (\<lambda>_. None) (\<lambda>_. 5000) (\<lambda>_. ev_unresolved) 4000 []
       [thread_m1]"

text \<open>
  A thread about one application at Acme as it grows over three runs, the extraction of
  its three messages, and the sheet after the first and after the second run.
\<close>

definition thread_acme :: "nat \<Rightarrow> gmail_thread" where
  "thread_acme n =
     \<lparr>threadId = ''t2'',
      getMessages = take n [\<lparr>getId = ''m2'', getDate = 2000\<rparr>, \<lparr>getId = ''m3'', getDate = 2500\<rparr>,
                            \<lparr>getId = ''m6'', getDate = 6000\<rparr>]\<rparr>"

definition extract_acme :: "gmail_message \<Rightarrow> app_event" where
  "extract_acme msg =
     (if getId msg = ''m2'' then ev_applied
      else if getId msg = ''m3'' then ev_interview
      else ev_rejected)"

definition rows_acme_run1 :: "app_row list" where
  "rows_acme_run1 =
     MJM_processJobApplicationEmails (\<lambda>_. None) (\<lambda>_. 2100) extract_acme 2050 [] [thread_acme 1]"

definition rows_acme_run2 :: "app_row list" where
  "rows_acme_run2 =
     MJM_processJobApplicationEmails (\<lambda>_. None) (\<lambda>_. 2600) extract_acme 2550 rows_acme_run1
       [thread_acme 2]"

section \<open>Facts about statuses and ranks\<close>

lemmas status_defs = MANUAL_REVIEW_NEEDED_TEXT_def MJM_APP_DEFAULT_STATUS_def
  MJM_APP_VIEWED_STATUS_def MJM_APP_ASSESSMENT_STATUS_def MJM_APP_INTERVIEW_STATUS_def
  MJM_APP_OFFER_STATUS_def MJM_APP_REJECTED_STATUS_def MJM_APP_ACCEPTED_STATUS_def

lemma hierarchy_key_cases:
  "map_of MJM_APP_STATUS_HIERARCHY s = Some k \<Longrightarrow>
     s \<in> {MANUAL_REVIEW_NEEDED_TEXT, ''Update/Other'', MJM_APP_DEFAULT_STATUS,
          MJM_APP_VIEWED_STATUS, MJM_APP_ASSESSMENT_STATUS, MJM_APP_INTERVIEW_STATUS,
          MJM_APP_OFFER_STATUS, MJM_APP_REJECTED_STATUS, MJM_APP_ACCEPTED_STATUS}"
  by (simp add: MJM_APP_STATUS_HIERARCHY_def split: if_splits)

lemma trim_keys:
  "s \<in> {MANUAL_REVIEW_NEEDED_TEXT, ''Update/Other'', MJM_APP_DEFAULT_STATUS,
        MJM_APP_VIEWED_STATUS, MJM_APP_ASSESSMENT_STATUS, MJM_APP_INTERVIEW_STATUS,
        MJM_APP_OFFER_STATUS, MJM_APP_REJECTED_STATUS, MJM_APP_ACCEPTED_STATUS}
   \<Longrightarrow> trim s = s"
  by (auto simp: status_defs trim_def isWhiteSpace_def)

lemma hierarchy_keys_trimmed: "map_of MJM_APP_STATUS_HIERARCHY s = Some k \<Longrightarrow> trim s = s"
  using hierarchy_key_cases trim_keys by blast

lemma hierarchy_values: "map_of MJM_APP_STATUS_HIERARCHY s = Some k \<Longrightarrow> -1 \<le> k \<and> k \<le> 6"
  by (simp add: MJM_APP_STATUS_HIERARCHY_def split: if_splits)

lemma rank_lower_bound: "-2 \<le> hierarchyRank s (-2)"
  using hierarchy_values [of s] by (auto simp: hierarchyRank_def split: option.splits)

text \<open>No key of the hierarchy carries surrounding white space, so trimming never lowers a rank.\<close>

lemma rank_trim: "hierarchyRank s (-2) \<le> hierarchyRank (trim s) (-2)"
proof (cases "map_of MJM_APP_STATUS_HIERARCHY s")
  case None
  then have "hierarchyRank s (-2) = -2" by (simp add: hierarchyRank_def)
  then show ?thesis using rank_lower_bound [of "trim s"] by simp
next
  case (Some k)
  then show ?thesis using hierarchy_keys_trimmed by simp
qed

lemma rank_gt_key: "hierarchyRank p (-2) < hierarchyRank u (-2) \<Longrightarrow> trim u = u"
  using rank_lower_bound [of p] hierarchy_keys_trimmed [of u]
  by (auto simp: hierarchyRank_def split: option.splits)

lemma dropWhile_fixed: "xs = [] \<or> \<not> P (hd xs) \<Longrightarrow> dropWhile P xs = xs"
  by (cases xs) auto

lemma trim_trim: "trim (trim s) = trim s"
proof -
  define a where "a = dropWhile isWhiteSpace s"
  define b where "b = dropWhile isWhiteSpace (rev a)"
  have a: "a = [] \<or> \<not> isWhiteSpace (hd a)"
    unfolding a_def using hd_dropWhile by blast
  have b: "b = [] \<or> \<not> isWhiteSpace (hd b)"
    unfolding b_def using hd_dropWhile by blast
  have t: "trim s = rev b" by (simp add: trim_def a_def b_def)
  have "rev a = takeWhile isWhiteSpace (rev a) @ b"
    by (simp add: b_def)
  then have "a = rev b @ rev (takeWhile isWhiteSpace (rev a))"
    by (metis rev_append rev_rev_ident)
  then have "b \<noteq> [] \<Longrightarrow> hd (rev b) = hd a"
    by (metis hd_append2 rev_is_Nil_conv)
  moreover have "b \<noteq> [] \<Longrightarrow> a \<noteq> []" by (auto simp: b_def)
  ultimately have "rev b = [] \<or> \<not> isWhiteSpace (hd (rev b))"
    using a by auto
  then have 1: "dropWhile isWhiteSpace (rev b) = rev b" by (rule dropWhile_fixed)
  have 2: "dropWhile isWhiteSpace b = b" using b by (rule dropWhile_fixed)
  show ?thesis unfolding t by (simp add: trim_def 1 2)
qed

lemma excluded_trimmed: "u \<in> set excludedPeak \<Longrightarrow> trim u = u"
  by (auto simp: excludedPeak_def status_defs trim_def isWhiteSpace_def)

lemma default_not_excluded: "MJM_APP_DEFAULT_STATUS \<notin> set excludedPeak"
  by (simp add: excludedPeak_def status_defs)

lemma trim_default: "trim MJM_APP_DEFAULT_STATUS = MJM_APP_DEFAULT_STATUS"
  by (simp add: status_defs trim_def isWhiteSpace_def)

text \<open>For a status cell that is not blank and carries no surrounding white space, the status the
  loop reads is the cell itself.\<close>

lemma statusInSheet_trimmed:
  "statusCol r \<noteq> [] \<Longrightarrow> trim (statusCol r) = statusCol r \<Longrightarrow> statusInSheet r = statusCol r"
  by (simp add: statusInSheet_def orElse_def)

section \<open>The status merge\<close>

text \<open>
  C1. When a message is reconciled into an existing row whose status, as the loop reads
  it (\<open>statusInSheet\<close>: the cell, \<open>Applied\<close> for a blank one, trimmed), is not
  \<open>Offer Accepted\<close>, the status cell becomes the message's status if and only if that
  status ranks at least as high as the stored one, or is \<open>Rejected\<close>, or is
  \<open>Offer Received\<close>; otherwise the cell keeps its value.
\<close>

theorem C1_status_merge:
  assumes "statusInSheet r \<noteq> MJM_APP_ACCEPTED_STATUS"
  shows "statusCol (updateRow parseDate now ev e r) =
     (if hierarchyRank (finalStatusToLog ev) 0 \<ge> hierarchyRank (statusInSheet r) 0
         \<or> finalStatusToLog ev = MJM_APP_REJECTED_STATUS
         \<or> finalStatusToLog ev = MJM_APP_OFFER_STATUS
      then finalStatusToLog ev
      else statusCol r)"
  using assms by (simp add: updateRow_def mergeStatus_def Let_def)

theorem C1_status_merge_witness:
  "statusInSheet (row_acme\<lparr>statusCol := ''Interview Scheduled''\<rparr>) \<noteq> MJM_APP_ACCEPTED_STATUS
   \<and> statusCol (updateRow (\<lambda>_. None) 3000 ev_applied (loadEntry 2 row_acme)
        (row_acme\<lparr>statusCol := ''Interview Scheduled''\<rparr>)) = ''Interview Scheduled''
   \<and> statusCol (updateRow (\<lambda>_. None) 3000 ev_rejected (loadEntry 2 row_acme)
        (row_acme\<lparr>statusCol := ''Interview Scheduled''\<rparr>)) = ''Rejected''"
proof -
  let ?r = "row_acme\<lparr>statusCol := ''Interview Scheduled''\<rparr>"
  have h: "statusInSheet ?r \<noteq> MJM_APP_ACCEPTED_STATUS"
    by code_simp
  have kept: "(if hierarchyRank (finalStatusToLog ev_applied) 0 \<ge> hierarchyRank (statusInSheet ?r) 0
         \<or> finalStatusToLog ev_applied = MJM_APP_REJECTED_STATUS
         \<or> finalStatusToLog ev_applied = MJM_APP_OFFER_STATUS
      then finalStatusToLog ev_applied
      else statusCol ?r) = ''Interview Scheduled''"
    by code_simp
  have overwritten: "(if hierarchyRank (finalStatusToLog ev_rejected) 0 \<ge> hierarchyRank (statusInSheet ?r) 0
         \<or> finalStatusToLog ev_rejected = MJM_APP_REJECTED_STATUS
         \<or> finalStatusToLog ev_rejected = MJM_APP_OFFER_STATUS
      then finalStatusToLog ev_rejected
      else statusCol ?r) = ''Rejected''"
    by code_simp
  show ?thesis
    by (intro conjI h trans [OF C1_status_merge [OF h] kept]
        trans [OF C1_status_merge [OF h] overwritten])
qed

lemma statusCol_step_accepted:
  assumes "statusCol (sheetRow s) = MJM_APP_ACCEPTED_STATUS"
  shows "statusCol (sheetRow (step parseDate a s)) = MJM_APP_ACCEPTED_STATUS"
proof (cases a)
  case (Reconcile now ev)
  have "statusInSheet (sheetRow s) = MJM_APP_ACCEPTED_STATUS"
    using assms by (simp add: statusInSheet_def orElse_def status_defs trim_def isWhiteSpace_def)
  then show ?thesis
    using Reconcile assms by (simp add: reconcile_def updateRow_def mergeStatus_def Let_def)
next
  case NewRun
  then show ?thesis using assms by (simp add: newRun_def)
next
  case (Sweep currentDate tzShift)
  have "\<not> isStale parseDate (staleDateThreshold currentDate tzShift) (sheetRow s)"
    using assms
    by (auto simp: isStale_def MJM_STALE_FINAL_STATUSES_FOR_CHECK_def status_defs trim_def
        isWhiteSpace_def split: option.splits)
  then show ?thesis using Sweep assms by (simp add: sweepRecord_def)
qed

text \<open>
  C2. Once a record's status cell is \<open>Offer Accepted\<close>, it is \<open>Offer Accepted\<close> after every
  sequence of reconciliations (with the preloads of new runs and the sweeps between them),
  whatever the statuses of the messages: a message of another status leaves the cell
  alone and an \<open>Offer Accepted\<close> message writes the same value.
\<close>

theorem C2_accepted_absorbing:
  assumes "statusCol (sheetRow s) = MJM_APP_ACCEPTED_STATUS"
  shows "statusCol (sheetRow (runActions parseDate acts s)) = MJM_APP_ACCEPTED_STATUS"
  using assms
proof (induction acts arbitrary: s)
  case Nil
  then show ?case by simp
next
  case (Cons a acts)
  then show ?case by (simp add: statusCol_step_accepted)
qed

theorem C2_accepted_absorbing_witness:
  "statusCol (sheetRow (created 1500 2 ev_accepted)) = MJM_APP_ACCEPTED_STATUS
   \<and> statusCol (sheetRow (runActions (\<lambda>_. None)
         [Reconcile 7000 ev_rejected, Sweep 10000000000 0, NewRun, Reconcile 8000 ev_offer,
          Reconcile 9000 ev_accepted]
         (created 1500 2 ev_accepted))) = MJM_APP_ACCEPTED_STATUS"
proof -
  have h: "statusCol (sheetRow (created 1500 2 ev_accepted)) = MJM_APP_ACCEPTED_STATUS"
    by code_simp
  show ?thesis
    by (intro conjI h C2_accepted_absorbing [OF h])
qed

text \<open>
  C10. \<open>Rejected\<close> and \<open>Offer Received\<close> have the same rank, and \<open>Rejected\<close> is not
  absorbing: a message whose status is \<open>Offer Received\<close> or \<open>Offer Accepted\<close>, reconciled
  into a row whose status cell is \<open>Rejected\<close>, overwrites the cell with its status.
\<close>

theorem C10_rejected_not_absorbing:
  assumes "statusCol r = MJM_APP_REJECTED_STATUS"
    and "finalStatusToLog ev = MJM_APP_OFFER_STATUS \<or> finalStatusToLog ev = MJM_APP_ACCEPTED_STATUS"
  shows "hierarchyRank MJM_APP_REJECTED_STATUS 0 = hierarchyRank MJM_APP_OFFER_STATUS 0
         \<and> statusCol (updateRow parseDate now ev e r) = finalStatusToLog ev"
proof -
  have "statusInSheet r = MJM_APP_REJECTED_STATUS"
    using assms(1) by (simp add: statusInSheet_def orElse_def status_defs trim_def isWhiteSpace_def)
  then show ?thesis
    using assms(2)
    by (auto simp: updateRow_def mergeStatus_def Let_def hierarchyRank_def
        MJM_APP_STATUS_HIERARCHY_def status_defs)
qed

theorem C10_rejected_not_absorbing_witness:
  "statusCol (row_acme\<lparr>statusCol := ''Rejected''\<rparr>) = MJM_APP_REJECTED_STATUS
   \<and> finalStatusToLog ev_offer = MJM_APP_OFFER_STATUS
   \<and> hierarchyRank MJM_APP_REJECTED_STATUS 0 = hierarchyRank MJM_APP_OFFER_STATUS 0
   \<and> statusCol (updateRow (\<lambda>_. None) 4100 ev_offer (loadEntry 2 row_acme)
        (row_acme\<lparr>statusCol := ''Rejected''\<rparr>)) = ''Offer Received''"
proof -
  have h1: "statusCol (row_acme\<lparr>statusCol := ''Rejected''\<rparr>) = MJM_APP_REJECTED_STATUS"
    by code_simp
  have h2: "finalStatusToLog ev_offer = MJM_APP_OFFER_STATUS"
    by code_simp
  have v: "finalStatusToLog ev_offer = ''Offer Received''"
    by code_simp
  note t = C10_rejected_not_absorbing [OF h1 disjI1 [OF h2], of "\<lambda>_. None" 4100 "loadEntry 2 row_acme"]
  show ?thesis
    by (intro conjI h1 h2 conjunct1 [OF t] trans [OF conjunct2 [OF t] v])
qed

section \<open>Company and title\<close>

text \<open>
  C5, as the code has it. When a message is reconciled into an existing row, the stored
  company (and likewise the stored title) is overwritten by the extracted value exactly
  when the extracted value is resolved and the stored value is the manual-review sentinel
  or differs from the extracted value by more than letter case; in every other case the
  cell keeps its value.
\<close>

theorem C5_field_merge:
  "companyCol (updateRow parseDate now ev e r) =
     (if extractedCompany ev \<noteq> MANUAL_REVIEW_NEEDED_TEXT
         \<and> (companyCol r = MANUAL_REVIEW_NEEDED_TEXT
              \<or> toLowerCase (companyCol r) \<noteq> toLowerCase (extractedCompany ev))
      then extractedCompany ev else companyCol r)
   \<and> jobTitleCol (updateRow parseDate now ev e r) =
     (if extractedTitle ev \<noteq> MANUAL_REVIEW_NEEDED_TEXT
         \<and> (jobTitleCol r = MANUAL_REVIEW_NEEDED_TEXT
              \<or> toLowerCase (jobTitleCol r) \<noteq> toLowerCase (extractedTitle ev))
      then extractedTitle ev else jobTitleCol r)"
  by (simp add: updateRow_def mergeField_def Let_def)

theorem C5_field_merge_witness:
  "companyCol (updateRow (\<lambda>_. None) 5100 ev_accepted (loadEntry 2 row_acme) row_acme) = ''Acme''
   \<and> jobTitleCol (updateRow (\<lambda>_. None) 5100 ev_accepted (loadEntry 2 row_acme) row_acme) = ''Engineer''
   \<and> jobTitleCol (updateRow (\<lambda>_. None) 5100 ev_accepted (loadEntry 2 row_acme)
        (row_acme\<lparr>jobTitleCol := MANUAL_REVIEW_NEEDED_TEXT\<rparr>)) = MANUAL_REVIEW_NEEDED_TEXT
   \<and> jobTitleCol (updateRow (\<lambda>_. None) 2100 ev_applied (loadEntry 2 row_acme)
        (row_acme\<lparr>jobTitleCol := MANUAL_REVIEW_NEEDED_TEXT\<rparr>)) = ''Engineer''"
proof -
  let ?u = "row_acme\<lparr>jobTitleCol := MANUAL_REVIEW_NEEDED_TEXT\<rparr>"
  note t1 = C5_field_merge [of "\<lambda>_. None" 5100 ev_accepted "loadEntry 2 row_acme" row_acme]
  note t2 = C5_field_merge [of "\<lambda>_. None" 5100 ev_accepted "loadEntry 2 row_acme" ?u]
  note t3 = C5_field_merge [of "\<lambda>_. None" 2100 ev_applied "loadEntry 2 row_acme" ?u]
  have c: "(if extractedCompany ev_accepted \<noteq> MANUAL_REVIEW_NEEDED_TEXT
         \<and> (companyCol row_acme = MANUAL_REVIEW_NEEDED_TEXT
              \<or> toLowerCase (companyCol row_acme) \<noteq> toLowerCase (extractedCompany ev_accepted))
      then extractedCompany ev_accepted else companyCol row_acme) = ''Acme''"
    by code_simp
  have j1: "(if extractedTitle ev_accepted \<noteq> MANUAL_REVIEW_NEEDED_TEXT
         \<and> (jobTitleCol row_acme = MANUAL_REVIEW_NEEDED_TEXT
              \<or> toLowerCase (jobTitleCol row_acme) \<noteq> toLowerCase (extractedTitle ev_accepted))
      then extractedTitle ev_accepted else jobTitleCol row_acme) = ''Engineer''"
    by code_simp
  have j2: "(if extractedTitle ev_accepted \<noteq> MANUAL_REVIEW_NEEDED_TEXT
         \<and> (jobTitleCol ?u = MANUAL_REVIEW_NEEDED_TEXT
              \<or> toLowerCase (jobTitleCol ?u) \<noteq> toLowerCase (extractedTitle ev_accepted))
      then extractedTitle ev_accepted else jobTitleCol ?u) = MANUAL_REVIEW_NEEDED_TEXT"
    by code_simp
  have j3: "(if extractedTitle ev_applied \<noteq> MANUAL_REVIEW_NEEDED_TEXT
         \<and> (jobTitleCol ?u = MANUAL_REVIEW_NEEDED_TEXT
              \<or> toLowerCase (jobTitleCol ?u) \<noteq> toLowerCase (extractedTitle ev_applied))
      then extractedTitle ev_applied else jobTitleCol ?u) = ''Engineer''"
    by code_simp
  show ?thesis
    by (intro conjI trans [OF conjunct1 [OF t1] c] trans [OF conjunct2 [OF t1] j1]
        trans [OF conjunct2 [OF t2] j2] trans [OF conjunct2 [OF t3] j3])
qed

text \<open>
  The claim as first stated fails: the stored title \<open>Engineer\<close> is resolved, the message's
  title \<open>Analyst\<close> is resolved and different, and the update writes \<open>Analyst\<close>.
\<close>

theorem C5_resolved_title_replaced:
  "jobTitleCol row_acme = ''Engineer'' \<and> ''Engineer'' \<noteq> MANUAL_REVIEW_NEEDED_TEXT
   \<and> extractedTitle ev_offer = ''Analyst'' \<and> ''Analyst'' \<noteq> MANUAL_REVIEW_NEEDED_TEXT
   \<and> jobTitleCol (updateRow (\<lambda>_. None) 4100 ev_offer (loadEntry 2 row_acme) row_acme) = ''Analyst''"
  by code_simp

section \<open>The peak status\<close>

lemma mergePeak_cases:
  "mergePeak peak u = peak \<or>
   (mergePeak peak u = u \<and> u \<notin> set excludedPeak
      \<and> hierarchyRank peak (-2) < hierarchyRank u (-2))"
proof -
  have "peak = MJM_APP_DEFAULT_STATUS
          \<Longrightarrow> hierarchyRank u 0 > hierarchyRank MJM_APP_DEFAULT_STATUS 0
          \<Longrightarrow> hierarchyRank peak (-2) < hierarchyRank u (-2)"
    by (auto simp: hierarchyRank_def MJM_APP_STATUS_HIERARCHY_def status_defs
        split: option.splits if_splits)
  then show ?thesis by (auto simp: mergePeak_def)
qed

lemma mergePeak_rank: "hierarchyRank peak (-2) \<le> hierarchyRank (mergePeak peak u) (-2)"
  using mergePeak_cases [of peak u] by auto

lemma mergePeak_clean:
  assumes "trim peak \<notin> set excludedPeak"
  shows "trim (mergePeak peak u) \<notin> set excludedPeak"
  using assms mergePeak_cases [of peak u] rank_gt_key [of peak u] by auto

lemma peakInSync_created: "peakInSync (created now n ev)"
  by (simp add: peakInSync_def created_def newRow_def newEntry_def)

lemma peakStatusCol_sweepRecord:
  "peakStatusCol (sheetRow (sweepRecord parseDate currentDate tzShift s)) = peakStatusCol (sheetRow s)"
  by (simp add: sweepRecord_def markStale_def)

lemma cacheItem_sweepRecord:
  "cacheItem (sweepRecord parseDate currentDate tzShift s) = cacheItem s"
  by (simp add: sweepRecord_def)

lemma peakInSync_step: "peakInSync s \<Longrightarrow> peakInSync (step parseDate a s)"
  by (cases a)
    (simp_all add: peakInSync_def reconcile_def updateEntry_def Let_def newRun_def loadEntry_def
      peakStatusCol_sweepRecord cacheItem_sweepRecord)

lemma peakInSync_runActions: "peakInSync s \<Longrightarrow> peakInSync (runActions parseDate acts s)"
  by (induction acts arbitrary: s) (simp_all add: peakInSync_step)

lemma peakRead_rank:
  assumes "peakInSync s"
  shows "hierarchyRank (peakStatusCol (sheetRow s)) (-2)
           \<le> hierarchyRank (peakRead (cacheItem s) (sheetRow s)) (-2)"
proof -
  let ?p = "peakStatusCol (sheetRow s)"
  have d: "hierarchyRank [] (-2) \<le> hierarchyRank MJM_APP_DEFAULT_STATUS (-2)"
    by (simp add: hierarchyRank_def MJM_APP_STATUS_HIERARCHY_def status_defs)
  have e: "trim ?p = [] \<Longrightarrow> hierarchyRank ?p (-2) \<le> hierarchyRank [] (-2)"
    using rank_trim [of ?p] by simp
  show ?thesis
    using assms rank_trim [of ?p] d e
    by (auto simp: peakRead_def peakInSync_def orElse_def)
qed

lemma peakRank_step:
  assumes "peakInSync s"
  shows "peakRank s \<le> peakRank (step parseDate a s)"
proof (cases a)
  case (Reconcile now ev)
  have "peakRank (reconcile parseDate now ev s)
          = hierarchyRank (mergePeak (peakRead (cacheItem s) (sheetRow s))
              (mergeStatus ev (sheetRow s))) (-2)"
    by (simp add: peakRank_def reconcile_def updateRow_def Let_def)
  then show ?thesis
    using Reconcile peakRead_rank [OF assms]
      mergePeak_rank [of "peakRead (cacheItem s) (sheetRow s)" "mergeStatus ev (sheetRow s)"]
    by (simp add: peakRank_def)
next
  case NewRun
  then show ?thesis by (simp add: peakRank_def newRun_def)
next
  case (Sweep currentDate tzShift)
  then show ?thesis by (simp add: peakRank_def peakStatusCol_sweepRecord)
qed

lemma peakRank_runActions:
  "peakInSync s \<Longrightarrow> peakRank s \<le> peakRank (runActions parseDate acts s)"
proof (induction acts arbitrary: s)
  case Nil
  then show ?case by simp
next
  case (Cons a acts)
  have "peakRank s \<le> peakRank (step parseDate a s)"
    using Cons.prems by (rule peakRank_step)
  also have "\<dots> \<le> peakRank (runActions parseDate acts (step parseDate a s))"
    using Cons.prems by (intro Cons.IH peakInSync_step)
  finally show ?case by simp
qed

lemma runActions_append:
  "runActions parseDate (as1 @ as2) s = runActions parseDate as2 (runActions parseDate as1 s)"
  by (induction as1 arbitrary: s) simp_all

lemma peakClean_not_excluded: "peakClean s \<Longrightarrow> peakStatusCol (sheetRow s) \<notin> set excludedPeak"
  using excluded_trimmed by (fastforce simp: peakClean_def)

lemma peakClean_created:
  assumes "trim (finalStatusToLog ev) \<in> set excludedPeak \<longrightarrow> finalStatusToLog ev \<in> set excludedPeak"
  shows "peakClean (created now n ev)"
proof -
  have "trim (peakStatusCol (sheetRow (created now n ev))) \<notin> set excludedPeak"
    using assms default_not_excluded trim_default
    by (auto simp: created_def newRow_def initPeak_def)
  then show ?thesis
    using peakInSync_created [of now n ev] by (simp add: peakClean_def)
qed

lemma peakRead_clean:
  assumes "peakClean s"
  shows "trim (peakRead (cacheItem s) (sheetRow s)) \<notin> set excludedPeak"
  using assms default_not_excluded trim_default
  by (auto simp: peakClean_def peakInSync_def peakRead_def orElse_def trim_trim)

lemma peakClean_step:
  assumes "peakClean s"
  shows "peakClean (step parseDate a s)"
proof (cases a)
  case (Reconcile now ev)
  have "peakStatusCol (sheetRow (reconcile parseDate now ev s))
          = mergePeak (peakRead (cacheItem s) (sheetRow s)) (mergeStatus ev (sheetRow s))"
    by (simp add: reconcile_def updateRow_def Let_def)
  then show ?thesis
    using Reconcile assms mergePeak_clean [OF peakRead_clean [OF assms]]
      peakInSync_step [of s parseDate a]
    by (simp add: peakClean_def)
next
  case NewRun
  then show ?thesis
    using assms peakInSync_step [of s parseDate a] by (simp add: peakClean_def newRun_def)
next
  case (Sweep currentDate tzShift)
  then show ?thesis
    using assms peakInSync_step [of s parseDate a]
    by (simp add: peakClean_def peakStatusCol_sweepRecord)
qed

lemma peakClean_runActions: "peakClean s \<Longrightarrow> peakClean (runActions parseDate acts s)"
  by (induction acts arbitrary: s) (simp_all add: peakClean_step)

text \<open>
  From the creation of a record on, through every sequence of reconciliations, preloads
  and sweeps, the rank of the peak cell never decreases. The peak cell never holds a
  status of the excluded set either, as long as the status of the message that created
  the record is not an excluded status with white space around it; no status of the
  hierarchy is.
\<close>

lemma peak_monotone_not_excluded:
  "peakRank (runActions parseDate as1 (created now n ev0))
     \<le> peakRank (runActions parseDate (as1 @ as2) (created now n ev0))
   \<and> ((trim (finalStatusToLog ev0) \<in> set excludedPeak \<longrightarrow> finalStatusToLog ev0 \<in> set excludedPeak)
        \<longrightarrow> peakStatusCol (sheetRow (runActions parseDate as1 (created now n ev0)))
              \<notin> set excludedPeak)"
proof
  have "peakInSync (runActions parseDate as1 (created now n ev0))"
    by (rule peakInSync_runActions) (rule peakInSync_created)
  then show "peakRank (runActions parseDate as1 (created now n ev0))
     \<le> peakRank (runActions parseDate (as1 @ as2) (created now n ev0))"
    unfolding runActions_append by (rule peakRank_runActions)
next
  show "(trim (finalStatusToLog ev0) \<in> set excludedPeak \<longrightarrow> finalStatusToLog ev0 \<in> set excludedPeak)
        \<longrightarrow> peakStatusCol (sheetRow (runActions parseDate as1 (created now n ev0)))
              \<notin> set excludedPeak"
    using peakClean_not_excluded peakClean_runActions peakClean_created by blast
qed

text \<open>
  The specification's scenarios A and B in one life: \<open>Applied\<close>, then
  \<open>Interview Scheduled\<close>, a new run, \<open>Applied\<close> again, then \<open>Rejected\<close>. The status ends
  as \<open>Rejected\<close> and the peak stays \<open>Interview Scheduled\<close>.
\<close>

lemma peak_monotone_not_excluded_example:
  "trim (finalStatusToLog ev_applied) \<notin> set excludedPeak
   \<and> peakRank (runActions (\<lambda>_. None) [Reconcile 2600 ev_interview] (created 1100 2 ev_applied))
     \<le> peakRank (runActions (\<lambda>_. None)
          ([Reconcile 2600 ev_interview]
             @ [NewRun, Reconcile 3000 ev_applied, Reconcile 6100 ev_rejected])
          (created 1100 2 ev_applied))
   \<and> peakStatusCol (sheetRow (runActions (\<lambda>_. None) [Reconcile 2600 ev_interview]
        (created 1100 2 ev_applied))) \<notin> set excludedPeak
   \<and> peakStatusCol (sheetRow (runActions (\<lambda>_. None)
          [Reconcile 2600 ev_interview, NewRun, Reconcile 3000 ev_applied, Reconcile 6100 ev_rejected]
          (created 1100 2 ev_applied))) = ''Interview Scheduled''
   \<and> statusCol (sheetRow (runActions (\<lambda>_. None)
          [Reconcile 2600 ev_interview, NewRun, Reconcile 3000 ev_applied, Reconcile 6100 ev_rejected]
          (created 1100 2 ev_applied))) = ''Rejected''"
proof -
  have h: "trim (finalStatusToLog ev_applied) \<notin> set excludedPeak"
    by code_simp
  then have h': "trim (finalStatusToLog ev_applied) \<in> set excludedPeak
                   \<longrightarrow> finalStatusToLog ev_applied \<in> set excludedPeak"
    by simp
  note t = peak_monotone_not_excluded [of "\<lambda>_. None" "[Reconcile 2600 ev_interview]" 1100 2
      ev_applied "[NewRun, Reconcile 3000 ev_applied, Reconcile 6100 ev_rejected]"]
  have v1: "peakStatusCol (sheetRow (runActions (\<lambda>_. None)
          [Reconcile 2600 ev_interview, NewRun, Reconcile 3000 ev_applied, Reconcile 6100 ev_rejected]
          (created 1100 2 ev_applied))) = ''Interview Scheduled''"
    by code_simp
  have v2: "statusCol (sheetRow (runActions (\<lambda>_. None)
          [Reconcile 2600 ev_interview, NewRun, Reconcile 3000 ev_applied, Reconcile 6100 ev_rejected]
          (created 1100 2 ev_applied))) = ''Rejected''"
    by code_simp
  show ?thesis
    by (intro conjI h conjunct1 [OF t] mp [OF conjunct2 [OF t] h'] v1 v2)
qed

lemma hierarchy_status_unpadded:
  assumes "map_of MJM_APP_STATUS_HIERARCHY s = Some k"
  shows "trim s \<in> set excludedPeak \<longrightarrow> s \<in> set excludedPeak"
  using hierarchy_keys_trimmed [OF assms] by simp

text \<open>
  C3. The peak cell can come to hold a status of the excluded set. The exclusion is
  tested on the status as the extractor returned it, while the preload trims the peak
  cell. A message whose status is \<open>Rejected\<close> with a trailing blank creates a record
  whose peak cell is that padded text, which is not in the set as written. The next run
  caches the cell trimmed, and the next message reconciled into the record writes
  \<open>Rejected\<close> into the peak cell: for the record alone, and over two runs of
  \<open>MJM_processJobApplicationEmails\<close> on an empty sheet.
\<close>

theorem C3_padded_status_becomes_peak:
  "finalStatusToLog ev_rejected_padded = ''Rejected ''
   \<and> peakStatusCol (sheetRow (created 1500 2 ev_rejected_padded)) = ''Rejected ''
   \<and> peakStatusCol (sheetRow (runActions (\<lambda>_. None) [NewRun, Reconcile 3000 ev_applied]
         (created 1500 2 ev_rejected_padded))) = ''Rejected''
   \<and> map peakStatusCol rows_padded_run1 = [''Rejected '']
   \<and> map peakStatusCol
        (MJM_processJobApplicationEmails (\<lambda>_. None) (\<lambda>_. 2100) extract_padded 2050
           rows_padded_run1 [thread_padded 2]) = [''Rejected'']
   \<and> ''Rejected'' \<in> set excludedPeak"
  by code_simp

section \<open>The staleness sweep: what it marks and what it leaves\<close>

lemma sweepRows_fst:
  "fst (sweepRows parseDate currentDate threshold rows) =
     map (\<lambda>r. if isStale parseDate threshold r then markStale currentDate r else r) rows"
  by (induction rows) (auto split: prod.splits)

lemma sweepRows_snd:
  "snd (sweepRows parseDate currentDate threshold rows) =
     length (filter (isStale parseDate threshold) rows)"
  by (induction rows) (auto split: prod.splits)

lemma map_unless_id: "\<forall>r \<in> set rows. \<not> P r \<Longrightarrow> map (\<lambda>r. if P r then f r else r) rows = rows"
  by (induction rows) simp_all

lemma sweep_None_iff:
  "MJM_markStaleApplicationsAsRejected parseDate currentDate tzShift sh = None
     \<longleftrightarrow> (\<forall>r \<in> set (dataRows sh). \<not> isStale parseDate (staleDateThreshold currentDate tzShift) r)"
proof -
  let ?thr = "staleDateThreshold currentDate tzShift"
  have "MJM_markStaleApplicationsAsRejected parseDate currentDate tzShift sh = None
     \<longleftrightarrow> dataRows sh = [] \<or> snd (sweepRows parseDate currentDate ?thr (dataRows sh)) = 0"
    by (auto simp: MJM_markStaleApplicationsAsRejected_def Let_def split: prod.splits)
  also have "\<dots> \<longleftrightarrow> (\<forall>r \<in> set (dataRows sh). \<not> isStale parseDate ?thr r)"
    by (auto simp: sweepRows_snd filter_empty_conv)
  finally show ?thesis .
qed

lemma sweep_Some:
  assumes "MJM_markStaleApplicationsAsRejected parseDate currentDate tzShift sh = Some sh'"
  shows "sh' = sh\<lparr>dataRows :=
           map (\<lambda>r. if isStale parseDate (staleDateThreshold currentDate tzShift) r
                    then markStale currentDate r else r) (dataRows sh)\<rparr>"
  using assms sweepRows_fst [of parseDate currentDate "staleDateThreshold currentDate tzShift" "dataRows sh"]
  by (auto simp: MJM_markStaleApplicationsAsRejected_def Let_def split: prod.splits if_splits)

lemma afterSweep_rows:
  "dataRows (afterSweep parseDate currentDate tzShift sh) =
     map (\<lambda>r. if isStale parseDate (staleDateThreshold currentDate tzShift) r
              then markStale currentDate r else r) (dataRows sh)"
proof (cases "MJM_markStaleApplicationsAsRejected parseDate currentDate tzShift sh")
  case None
  then show ?thesis
    using sweep_None_iff [of parseDate currentDate tzShift sh]
    by (simp add: afterSweep_def map_unless_id)
next
  case (Some sh')
  then show ?thesis
    using sweep_Some [OF Some] by (simp add: afterSweep_def)
qed

lemma isStale_iff:
  "isStale parseDate threshold r \<longleftrightarrow>
     trim (statusCol r) \<notin> set MJM_STALE_FINAL_STATUSES_FOR_CHECK
     \<and> trim (statusCol r) \<noteq> []
     \<and> trim (statusCol r) \<noteq> MANUAL_REVIEW_NEEDED_TEXT
     \<and> (\<exists>t. lastUpdateDateObject parseDate (lastUpdateDateCol r) = Some t \<and> t < threshold)"
  by (auto simp: isStale_def Let_def split: option.splits)

text \<open>
  C7. After the sweep, a data row has its status set to \<open>Rejected\<close> and its last-update
  date (and processed timestamp) set to the sweep time exactly when its trimmed status is
  not one of \<open>Rejected\<close>, \<open>Offer Accepted\<close>, \<open>Withdrawn\<close>, is not empty and not the
  manual-review sentinel, and its last-update date reads as a time strictly before the
  threshold, seven weeks before the sweep; every other row is as it was. In particular a
  row with status \<open>Applied\<close> last updated eight weeks before the sweep becomes \<open>Rejected\<close>
  (whatever daylight-saving shift the local calendar puts into the threshold).
\<close>

theorem C7_sweep_marks_stale:
  assumes "i < length (dataRows sh)"
  shows
    "(let r = dataRows sh ! i;
          r' = dataRows (afterSweep parseDate currentDate tzShift sh) ! i;
          currentAppStatus = trim (statusCol r)
      in r' =
           (if currentAppStatus \<notin> set [MJM_APP_REJECTED_STATUS, MJM_APP_ACCEPTED_STATUS, ''Withdrawn'']
               \<and> currentAppStatus \<noteq> []
               \<and> currentAppStatus \<noteq> MANUAL_REVIEW_NEEDED_TEXT
               \<and> (\<exists>t. lastUpdateDateObject parseDate (lastUpdateDateCol r) = Some t
                        \<and> t < currentDate - 7 * 7 * msPerDay + tzShift)
            then r\<lparr>statusCol := MJM_APP_REJECTED_STATUS,
                   lastUpdateDateCol := DateCell currentDate,
                   processedTimestampCol := DateCell currentDate\<rparr>
            else r)
         \<and> (statusCol r = MJM_APP_DEFAULT_STATUS
              \<and> lastUpdateDateCol r = DateCell (currentDate - 8 * 7 * msPerDay)
              \<and> \<bar>tzShift\<bar> < 7 * msPerDay
             \<longrightarrow> statusCol r' = MJM_APP_REJECTED_STATUS))"
proof -
  let ?r = "dataRows sh ! i"
  let ?thr = "staleDateThreshold currentDate tzShift"
  have r': "dataRows (afterSweep parseDate currentDate tzShift sh) ! i =
          (if isStale parseDate ?thr ?r then markStale currentDate ?r else ?r)"
    using assms by (simp add: afterSweep_rows)
  have thr: "?thr = currentDate - 7 * 7 * msPerDay + tzShift"
    by (simp add: staleDateThreshold_def MJM_STALE_WEEKS_THRESHOLD_def)
  have fin: "MJM_STALE_FINAL_STATUSES_FOR_CHECK = [MJM_APP_REJECTED_STATUS, MJM_APP_ACCEPTED_STATUS, ''Withdrawn'']"
    by (simp add: MJM_STALE_FINAL_STATUSES_FOR_CHECK_def)
  have scen: "statusCol ?r = MJM_APP_DEFAULT_STATUS
              \<Longrightarrow> lastUpdateDateCol ?r = DateCell (currentDate - 8 * 7 * msPerDay)
              \<Longrightarrow> \<bar>tzShift\<bar> < 7 * msPerDay \<Longrightarrow> isStale parseDate ?thr ?r"
    unfolding isStale_iff thr
    by (simp add: lastUpdateDateObject_def MJM_STALE_FINAL_STATUSES_FOR_CHECK_def
        MJM_APP_DEFAULT_STATUS_def MJM_APP_REJECTED_STATUS_def MJM_APP_ACCEPTED_STATUS_def
        MANUAL_REVIEW_NEEDED_TEXT_def trim_def isWhiteSpace_def msPerDay_def)
  show ?thesis
    unfolding Let_def r'
    using scen by (auto simp: isStale_iff thr fin markStale_def)
qed

theorem C7_sweep_marks_stale_witness:
  "0 < length (dataRows sheet_stale)
   \<and> statusCol (dataRows sheet_stale ! 0) = MJM_APP_DEFAULT_STATUS
   \<and> lastUpdateDateCol (dataRows sheet_stale ! 0) = DateCell (10000000000 - 8 * 7 * msPerDay)
   \<and> statusCol (dataRows (afterSweep (\<lambda>_. None) 10000000000 0 sheet_stale) ! 0)
        = MJM_APP_REJECTED_STATUS
   \<and> lastUpdateDateCol (dataRows (afterSweep (\<lambda>_. None) 10000000000 0 sheet_stale) ! 0)
        = DateCell 10000000000
   \<and> statusCol (dataRows (afterSweep (\<lambda>_. None) 10000000000 0 sheet_stale) ! 1) = ''Offer Accepted''
   \<and> statusCol (dataRows (afterSweep (\<lambda>_. None) 10000000000 0 sheet_stale) ! 2) = ''Applied''"
proof -
  have h: "0 < length (dataRows sheet_stale)"
    by code_simp
  note t = C7_sweep_marks_stale [OF h, where parseDate = "\<lambda>_. None" and currentDate = 10000000000
      and tzShift = 0, unfolded Let_def]
  have p1: "statusCol (dataRows sheet_stale ! 0) = MJM_APP_DEFAULT_STATUS"
    by code_simp
  have p2: "lastUpdateDateCol (dataRows sheet_stale ! 0) = DateCell (10000000000 - 8 * 7 * msPerDay)"
    by code_simp
  have p3: "\<bar>0 :: int\<bar> < 7 * msPerDay"
    by code_simp
  have c: "statusCol (dataRows (afterSweep (\<lambda>_. None) 10000000000 0 sheet_stale) ! 0)
             = MJM_APP_REJECTED_STATUS"
    by (rule mp [OF conjunct2 [OF t]]) (intro conjI p1 p2 p3)
  have v1: "lastUpdateDateCol (dataRows (afterSweep (\<lambda>_. None) 10000000000 0 sheet_stale) ! 0)
        = DateCell 10000000000"
    by code_simp
  have v2: "statusCol (dataRows (afterSweep (\<lambda>_. None) 10000000000 0 sheet_stale) ! 1) = ''Offer Accepted''"
    by code_simp
  have v3: "statusCol (dataRows (afterSweep (\<lambda>_. None) 10000000000 0 sheet_stale) ! 2) = ''Applied''"
    by code_simp
  show ?thesis
    by (intro conjI h p1 p2 c v1 v2 v3)
qed

text \<open>
  C9. The sweep writes nothing when no row is stale. When it writes, the header and the
  number of rows are as before; a stale row has its status set to \<open>Rejected\<close> and its
  last-update date and processed timestamp set to the sweep time, with its eight other
  columns unchanged; a row that is not stale is written back unchanged.
\<close>

theorem C9_sweep_frame:
  "(MJM_markStaleApplicationsAsRejected parseDate currentDate tzShift sh = None
      \<longleftrightarrow> (\<forall>r \<in> set (dataRows sh). \<not> isStale parseDate (staleDateThreshold currentDate tzShift) r))
   \<and> (\<forall>sh'. MJM_markStaleApplicationsAsRejected parseDate currentDate tzShift sh = Some sh' \<longrightarrow>
         headerRow sh' = headerRow sh
         \<and> length (dataRows sh') = length (dataRows sh)
         \<and> (\<forall>i < length (dataRows sh).
              let r = dataRows sh ! i; r' = dataRows sh' ! i
              in if isStale parseDate (staleDateThreshold currentDate tzShift) r
                 then statusCol r' = MJM_APP_REJECTED_STATUS
                    \<and> lastUpdateDateCol r' = DateCell currentDate
                    \<and> processedTimestampCol r' = DateCell currentDate
                    \<and> emailDateCol r' = emailDateCol r
                    \<and> platformCol r' = platformCol r
                    \<and> companyCol r' = companyCol r
                    \<and> jobTitleCol r' = jobTitleCol r
                    \<and> peakStatusCol r' = peakStatusCol r
                    \<and> emailSubjectCol r' = emailSubjectCol r
                    \<and> emailLinkCol r' = emailLinkCol r
                    \<and> emailIdCol r' = emailIdCol r
                 else r' = r))"
proof (intro conjI allI impI)
  show "MJM_markStaleApplicationsAsRejected parseDate currentDate tzShift sh = None
      \<longleftrightarrow> (\<forall>r \<in> set (dataRows sh). \<not> isStale parseDate (staleDateThreshold currentDate tzShift) r)"
    by (rule sweep_None_iff)
next
  fix sh'
  assume "MJM_markStaleApplicationsAsRejected parseDate currentDate tzShift sh = Some sh'"
  note s = sweep_Some [OF this]
  show "headerRow sh' = headerRow sh" by (simp add: s)
  show "length (dataRows sh') = length (dataRows sh)" by (simp add: s)
  fix i
  assume "i < length (dataRows sh)"
  then show "let r = dataRows sh ! i; r' = dataRows sh' ! i
              in if isStale parseDate (staleDateThreshold currentDate tzShift) r
                 then statusCol r' = MJM_APP_REJECTED_STATUS
                    \<and> lastUpdateDateCol r' = DateCell currentDate
                    \<and> processedTimestampCol r' = DateCell currentDate
                    \<and> emailDateCol r' = emailDateCol r
                    \<and> platformCol r' = platformCol r
                    \<and> companyCol r' = companyCol r
                    \<and> jobTitleCol r' = jobTitleCol r
                    \<and> peakStatusCol r' = peakStatusCol r
                    \<and> emailSubjectCol r' = emailSubjectCol r
                    \<and> emailLinkCol r' = emailLinkCol r
                    \<and> emailIdCol r' = emailIdCol r
                 else r' = r"
    by (simp add: s Let_def markStale_def)
qed



theorem C9_sweep_frame_witness:
  "MJM_markStaleApplicationsAsRejected (\<lambda>_. None) 10000000000 0 sheet_stale
      = Some (afterSweep (\<lambda>_. None) 10000000000 0 sheet_stale)
   \<and> headerRow (afterSweep (\<lambda>_. None) 10000000000 0 sheet_stale) = headerRow sheet_stale
   \<and> statusCol (dataRows (afterSweep (\<lambda>_. None) 10000000000 0 sheet_stale) ! 0)
        = MJM_APP_REJECTED_STATUS
   \<and> peakStatusCol (dataRows (afterSweep (\<lambda>_. None) 10000000000 0 sheet_stale) ! 0)
        = peakStatusCol (dataRows sheet_stale ! 0)
   \<and> dataRows (afterSweep (\<lambda>_. None) 10000000000 0 sheet_stale) ! 1 = dataRows sheet_stale ! 1
   \<and> MJM_markStaleApplicationsAsRejected (\<lambda>_. None) 10000000000 0
        (sheet_stale\<lparr>dataRows := [dataRows sheet_stale ! 1, dataRows sheet_stale ! 2]\<rparr>) = None"
proof -
  let ?out = "afterSweep (\<lambda>_. None) 10000000000 0 sheet_stale"
  let ?quiet = "sheet_stale\<lparr>dataRows := [dataRows sheet_stale ! 1, dataRows sheet_stale ! 2]\<rparr>"
  have s: "MJM_markStaleApplicationsAsRejected (\<lambda>_. None) 10000000000 0 sheet_stale = Some ?out"
    by code_simp
  note t = C9_sweep_frame [of "\<lambda>_. None" 10000000000 0 sheet_stale]
  note f = mp [OF spec [OF conjunct2 [OF t]] s]
  have l0: "0 < length (dataRows sheet_stale)" and l1: "1 < length (dataRows sheet_stale)"
    by code_simp+
  have st0: "isStale (\<lambda>_. None) (staleDateThreshold 10000000000 0) (dataRows sheet_stale ! 0)"
    by code_simp
  have st1: "\<not> isStale (\<lambda>_. None) (staleDateThreshold 10000000000 0) (dataRows sheet_stale ! 1)"
    by code_simp
  note rows = conjunct2 [OF conjunct2 [OF f]]
  note r0 = mp [OF spec [OF rows] l0, unfolded Let_def if_P [OF st0]]
  note r1 = mp [OF spec [OF rows] l1, unfolded Let_def if_not_P [OF st1]]
  have q: "\<forall>r \<in> set (dataRows ?quiet). \<not> isStale (\<lambda>_. None) (staleDateThreshold 10000000000 0) r"
    by code_simp
  have n: "MJM_markStaleApplicationsAsRejected (\<lambda>_. None) 10000000000 0 ?quiet = None"
    using conjunct1 [OF C9_sweep_frame [of "\<lambda>_. None" 10000000000 0 ?quiet]] q by blast
  show ?thesis
    by (intro conjI s conjunct1 [OF f] conjunct1 [OF r0] r1 n)
      (use r0 in blast)
qed

section \<open>The keyword fallback: order of the sets\<close>

lemma includesStr_iff: "includesStr s k \<longleftrightarrow> (\<exists>p q. s = p @ k @ q)"
proof (induction s)
  case Nil
  then show ?case by auto
next
  case (Cons c cs)
  have "take (length k) (c # cs) = k \<longleftrightarrow> (\<exists>q. c # cs = k @ q)"
    by (metis append_eq_conv_conj)
  moreover have "(\<exists>p q. c # cs = p @ k @ q)
      \<longleftrightarrow> (\<exists>q. c # cs = k @ q) \<or> (\<exists>p q. cs = p @ k @ q)"
  proof
    assume "\<exists>p q. c # cs = p @ k @ q"
    then obtain p q where pq: "c # cs = p @ k @ q" by blast
    show "(\<exists>q. c # cs = k @ q) \<or> (\<exists>p q. cs = p @ k @ q)"
    proof (cases p)
      case Nil
      then show ?thesis using pq by auto
    next
      case (Cons a p')
      then have "cs = p' @ k @ q" using pq by simp
      then show ?thesis by blast
    qed
  next
    assume "(\<exists>q. c # cs = k @ q) \<or> (\<exists>p q. cs = p @ k @ q)"
    then show "\<exists>p q. c # cs = p @ k @ q"
    proof
      assume "\<exists>q. c # cs = k @ q"
      then show ?thesis by (metis append_Nil)
    next
      assume "\<exists>p q. cs = p @ k @ q"
      then obtain p q where "cs = p @ k @ q" by blast
      then have "c # cs = (c # p) @ k @ q" by simp
      then show ?thesis by blast
    qed
  qed
  ultimately show ?case using Cons.IH by simp
qed

text \<open>
  C8, as the code has it. A body of fewer than ten characters yields no status, whatever
  it contains. For every longer body the fallback checks the five keyword sets in the
  order offer, interview, assessment, viewed, rejection and returns the status of the
  first set with a keyword contained in the normalised body, and no status when no set
  has one.
\<close>

theorem C8_parseBodyForStatus:
  "MJM_parseBodyForStatus plainBody =
     (if length plainBody < 10 then None
      else spec_firstMatchingSet (normalizeBody plainBody))"
  by (auto simp: MJM_parseBodyForStatus_def spec_firstMatchingSet_def keywordSetsInOrder_def Let_def)

theorem C8_parseBodyForStatus_witness:
  "MJM_parseBodyForStatus
       ''Unfortunately the interview request is off - but we are PLEASED   to offer you the role!''
     = Some ''Offer Received''
   \<and> MJM_parseBodyForStatus ''We regret to inform you that the position was closed.''
     = Some ''Rejected''
   \<and> MJM_parseBodyForStatus ''Thank you for applying to Acme.'' = None"
proof -
  have a: "(if length ''Unfortunately the interview request is off - but we are PLEASED   to offer you the role!'' < 10
      then None
      else spec_firstMatchingSet (normalizeBody
        ''Unfortunately the interview request is off - but we are PLEASED   to offer you the role!''))
     = Some ''Offer Received''"
    by code_simp
  have b: "(if length ''We regret to inform you that the position was closed.'' < 10 then None
      else spec_firstMatchingSet (normalizeBody ''We regret to inform you that the position was closed.''))
     = Some ''Rejected''"
    by code_simp
  have c: "(if length ''Thank you for applying to Acme.'' < 10 then None
      else spec_firstMatchingSet (normalizeBody ''Thank you for applying to Acme.'')) = None"
    by code_simp
  show ?thesis
    by (intro conjI trans [OF C8_parseBodyForStatus a] trans [OF C8_parseBodyForStatus b]
        trans [OF C8_parseBodyForStatus c])
qed

text \<open>
  The claim as first stated fails: the nine-character body \<open>job offer\<close> is its own
  normalisation and contains the offer keyword \<open>job offer\<close>, yet the fallback returns no
  status, since it gives up on every body shorter than ten characters.
\<close>

theorem C8_short_body_unresolved:
  "normalizeBody ''job offer'' = ''job offer''
   \<and> ''job offer'' \<in> set MJM_OFFER_KEYWORDS
   \<and> includesStr (normalizeBody ''job offer'') ''job offer''
   \<and> spec_firstMatchingSet (normalizeBody ''job offer'') = Some MJM_APP_OFFER_STATUS
   \<and> MJM_parseBodyForStatus ''job offer'' = None"
  by code_simp

section \<open>Identity resolution\<close>

lemma map_of_cachePut: "map_of (cachePut c k es) k' = (if k' = k then Some es else map_of c k')"
  by (induction c) auto

lemma cacheGet_cachePut:
  "cacheGet (cachePut c k es) k' = (if k' = k then Own es else cacheGet c k')"
  by (simp add: cacheGet_def map_of_cachePut)

lemma cacheGet_Own: "cacheGet c k = Own es \<longleftrightarrow> map_of c k = Some es"
  by (auto simp: cacheGet_def split: option.splits)

lemma cachePush_Inr:
  "cachePush c k e = Inr c' \<longleftrightarrow>
     (map_of c k \<noteq> None \<or> map_of objectPrototype k = None)
     \<and> c' = cachePut c k ((case map_of c k of None \<Rightarrow> [] | Some es \<Rightarrow> es) @ [e])"
  by (auto simp: cachePush_def cacheGet_def split: option.splits)

lemma cachePush_Inl:
  "cachePush c k e = Inl err \<longleftrightarrow> map_of c k = None \<and> map_of objectPrototype k \<noteq> None"
  by (cases err) (auto simp: cachePush_def cacheGet_def split: option.splits)

lemma inherited_cachedKey: "map_of objectPrototype k = Some b \<Longrightarrow> cachedKey k"
  by (auto simp: objectPrototype_def cachedKey_def toLowerCase_def lowerChar_def
      MANUAL_REVIEW_NEEDED_TEXT_def split: if_splits)

lemma noShadowing_cachePut:
  "noShadowing c \<Longrightarrow> map_of objectPrototype k = None \<Longrightarrow> noShadowing (cachePut c k es)"
  by (auto simp: noShadowing_def map_of_cachePut)

lemma preloadRows_lookup:
  assumes "noShadowing c"
  shows "noShadowing (preloadRows n rows c)
         \<and> map_of (preloadRows n rows c) k =
             (case map_of c k of
                None \<Rightarrow> (if entriesFor k n (rowsPreloaded rows) = [] then None
                         else Some (entriesFor k n (rowsPreloaded rows)))
              | Some es \<Rightarrow> Some (es @ entriesFor k n (rowsPreloaded rows)))"
  using assms
proof (induction rows arbitrary: n c)
  case Nil
  then show ?case by (simp add: rowsPreloaded_def split: option.splits)
next
  case (Cons r rs)
  let ?k = "companyLCKey r"
  let ?e = "loadEntry (n + 2) r"
  show ?case
  proof (cases "map_of objectPrototype ?k")
    case (Some b)
    then have ck: "cachedKey ?k" by (rule inherited_cachedKey)
    have "map_of c ?k = None" using Cons.prems Some by (simp add: noShadowing_def)
    then have "cachePush c ?k ?e = Inl TypeError"
      using Some by (simp add: cachePush_Inl)
    then show ?thesis
      using Some ck Cons.prems by (simp add: rowsPreloaded_def split: option.splits)
  next
    case None
    have rp: "rowsPreloaded (r # rs) = r # rowsPreloaded rs"
      using None by (simp add: rowsPreloaded_def)
    show ?thesis
    proof (cases "cachedKey ?k")
      case False
      then show ?thesis
        using Cons.IH [OF Cons.prems, of "Suc n"] by (simp add: rp split: option.splits)
    next
      case True
      let ?c' = "cachePut c ?k ((case map_of c ?k of None \<Rightarrow> [] | Some es \<Rightarrow> es) @ [?e])"
      have push: "cachePush c ?k ?e = Inr ?c'"
        using None by (simp add: cachePush_Inr)
      have "noShadowing ?c'"
        using Cons.prems None by (rule noShadowing_cachePut)
      from Cons.IH [OF this, of "Suc n"] show ?thesis
        using True push by (auto simp: rp map_of_cachePut split: option.splits)
    qed
  qed
qed

lemma cacheGet_preloadCache:
  "cacheGet (preloadCache rows) k =
     (if entriesFor k 0 (rowsPreloaded rows) \<noteq> [] then Own (entriesFor k 0 (rowsPreloaded rows))
      else case map_of objectPrototype k of
             Some lengthPositive \<Rightarrow> Inherited lengthPositive
           | None \<Rightarrow> Undefined)"
proof -
  have "noShadowing []" by (simp add: noShadowing_def)
  from preloadRows_lookup [OF this, of 0 rows k] show ?thesis
    by (simp add: preloadCache_def cacheGet_def)
qed

lemma entriesFor_indices:
  "entriesFor k n rows =
     map (\<lambda>i. loadEntry (Suc (Suc (n + i))) (rows ! i))
       (filter (\<lambda>i. cachedKey (companyLCKey (rows ! i)) \<and> companyLCKey (rows ! i) = k)
          [0..<length rows])"
proof (induction rows arbitrary: n)
  case Nil
  then show ?case by simp
next
  case (Cons r rs)
  have u: "[0..<length (r # rs)] = 0 # map Suc [0..<length rs]"
    by (simp add: upt_conv_Cons map_Suc_upt del: upt_Suc)
  show ?case
    unfolding u by (auto simp: Cons.IH filter_map o_def)
qed

lemma find_upt:
  "find R [0..<n] = Some i \<longleftrightarrow> i < n \<and> R i \<and> (\<forall>j<i. \<not> R j)"
  by (auto simp: find_Some_iff)

lemma find_upt_None: "find R [0..<n] = None \<longleftrightarrow> (\<forall>j<n. \<not> R j)"
  by (auto simp: find_None_iff)

lemma find_map: "find P (map f xs) = map_option f (find (P \<circ> f) xs)"
  by (induction xs) auto

lemma find_filter: "find P (filter Q xs) = find (\<lambda>x. Q x \<and> P x) xs"
  by (induction xs) auto

lemma insort_key_last:
  "\<forall>y \<in> set ys. g y < g x \<Longrightarrow> insort_key g x ys = ys @ [x]"
  by (induction ys) auto

lemma sort_key_decreasing:
  "sorted_wrt (\<lambda>a b. g a > g b) xs \<Longrightarrow> sort_key g xs = rev xs"
  by (induction xs) (auto simp: insort_key_last)

lemma sorted_le_last: "sorted xs \<Longrightarrow> x \<in> set xs \<Longrightarrow> (x::nat) \<le> last xs"
  by (induction xs) auto

lemma last_filter_upt:
  assumes "filter Q [0..<n] \<noteq> []"
  shows "last (filter Q [0..<n]) < n \<and> Q (last (filter Q [0..<n]))
         \<and> (\<forall>j<n. Q j \<longrightarrow> j \<le> last (filter Q [0..<n]))"
proof -
  let ?xs = "filter Q [0..<n]"
  have "last ?xs \<in> set ?xs" using assms by (rule last_in_set)
  moreover have "sorted ?xs" by (simp add: sorted_wrt_filter)
  then have "\<And>j. j \<in> set ?xs \<Longrightarrow> j \<le> last ?xs"
    by (rule sorted_le_last)
  ultimately show ?thesis by auto
qed

lemma entriesFor_sameCompany:
  "entriesFor (toLowerCase exCompany) 0 rows =
     map (\<lambda>i. loadEntry (Suc (Suc i)) (rows ! i))
       (filter (\<lambda>i. sameCompany exCompany (rows ! i)) [0..<length rows])"
  by (simp add: entriesFor_indices sameCompany_def)

lemma sortByRowNumDesc_indices:
  "sortByRowNumDesc (map (\<lambda>i. loadEntry (Suc (Suc i)) (rows ! i)) (filter Q [0..<n]))
     = rev (map (\<lambda>i. loadEntry (Suc (Suc i)) (rows ! i)) (filter Q [0..<n]))"
proof -
  have "sorted_wrt (<) (filter Q [0..<n])"
    by (simp add: sorted_wrt_filter)
  then have "sorted_wrt (\<lambda>a b. - int (rowNum a) > - int (rowNum b))
               (map (\<lambda>i. loadEntry (Suc (Suc i)) (rows ! i)) (filter Q [0..<n]))"
    by (simp add: sorted_wrt_map loadEntry_def)
  then show ?thesis
    unfolding sortByRowNumDesc_def by (rule sort_key_decreasing)
qed

lemma findByTitle_indices:
  "findByTitle exTitle (map (\<lambda>i. loadEntry (Suc (Suc i)) (rows ! i)) (filter Q [0..<n]))
     = map_option (\<lambda>i. loadEntry (Suc (Suc i)) (rows ! i))
         (find (\<lambda>i. Q i \<and> sameTitle exTitle (rows ! i)) [0..<n])"
  by (simp add: findByTitle_def titleMatches_def find_map find_filter o_def sameTitle_def
      loadEntry_def)

text \<open>What the in-place sort of the fallback leaves at the head of the array.\<close>

lemma sortByRowNumDesc_Cons:
  assumes "sortByRowNumDesc ms = e # es"
  shows "e \<in> set ms \<and> (\<forall>e' \<in> set ms. rowNum e' \<le> rowNum e) \<and> mset (e # es) = mset ms
         \<and> sorted_wrt (\<lambda>a b. rowNum b \<le> rowNum a) (e # es)"
proof -
  have m: "mset (e # es) = mset ms"
    using assms by (metis sortByRowNumDesc_def mset_sort)
  then have st: "set (e # es) = set ms" by (rule mset_eq_setD)
  have "sorted (map (\<lambda>e. - int (rowNum e)) (sortByRowNumDesc ms))"
    by (simp add: sortByRowNumDesc_def)
  then have srt: "sorted_wrt (\<lambda>a b. rowNum b \<le> rowNum a) (e # es)"
    using assms by (simp add: sorted_map)
  then have "\<forall>e' \<in> set (e # es). rowNum e' \<le> rowNum e" by auto
  then show ?thesis using m st srt by auto
qed

text \<open>Resolution, case by case, against any cache.\<close>

lemma resolve_unresolved:
  "resolveEntry c MANUAL_REVIEW_NEEDED_TEXT exTitle = Inr (None, c)"
  by (simp add: resolveEntry_def)

lemma resolve_Undefined:
  "exCompany \<noteq> MANUAL_REVIEW_NEEDED_TEXT \<Longrightarrow> cacheGet c (toLowerCase exCompany) = Undefined \<Longrightarrow>
     resolveEntry c exCompany exTitle = Inr (None, c)"
  by (simp add: resolveEntry_def)

lemma resolve_Inherited:
  "exCompany \<noteq> MANUAL_REVIEW_NEEDED_TEXT \<Longrightarrow>
   cacheGet c (toLowerCase exCompany) = Inherited lengthPositive \<Longrightarrow>
     resolveEntry c exCompany exTitle =
       (if exTitle \<noteq> MANUAL_REVIEW_NEEDED_TEXT \<or> lengthPositive then Inl TypeError
        else Inr (None, c))"
  by (simp add: resolveEntry_def)

lemma resolve_Own:
  "exCompany \<noteq> MANUAL_REVIEW_NEEDED_TEXT \<Longrightarrow> cacheGet c (toLowerCase exCompany) = Own matches \<Longrightarrow>
     resolveEntry c exCompany exTitle =
       (case (if exTitle \<noteq> MANUAL_REVIEW_NEEDED_TEXT then findByTitle exTitle matches else None) of
          Some e \<Rightarrow> Inr (Some e, c)
        | None \<Rightarrow>
            (case sortByRowNumDesc matches of
               [] \<Rightarrow> Inr (None, c)
             | e # es \<Rightarrow> Inr (Some e, cachePut c (toLowerCase exCompany) (e # es))))"
  by (simp add: resolveEntry_def)

lemma resolve_by_title:
  assumes "exCompany \<noteq> MANUAL_REVIEW_NEEDED_TEXT"
    and "cacheGet c (toLowerCase exCompany) = Own matches"
    and "exTitle \<noteq> MANUAL_REVIEW_NEEDED_TEXT"
    and "\<exists>e \<in> set matches. titleMatches exTitle e"
  shows "\<exists>i < length matches.
           resolveEntry c exCompany exTitle = Inr (Some (matches ! i), c)
           \<and> titleMatches exTitle (matches ! i)
           \<and> (\<forall>j < i. \<not> titleMatches exTitle (matches ! j))"
proof -
  have "find (titleMatches exTitle) matches \<noteq> None"
    using assms(4) by (auto simp: find_None_iff)
  then obtain e where f: "find (titleMatches exTitle) matches = Some e" by blast
  then obtain i where i: "i < length matches" "titleMatches exTitle (matches ! i)"
      "e = matches ! i" "\<forall>j < i. \<not> titleMatches exTitle (matches ! j)"
    unfolding find_Some_iff by blast
  have "resolveEntry c exCompany exTitle = Inr (Some e, c)"
    using assms(3) f by (simp add: resolve_Own [OF assms(1,2)] findByTitle_def)
  then show ?thesis using i by blast
qed

lemma resolve_fallback:
  assumes "exCompany \<noteq> MANUAL_REVIEW_NEEDED_TEXT"
    and "cacheGet c (toLowerCase exCompany) = Own matches"
    and "exTitle = MANUAL_REVIEW_NEEDED_TEXT \<or> (\<forall>e \<in> set matches. \<not> titleMatches exTitle e)"
  shows "if matches = [] then resolveEntry c exCompany exTitle = Inr (None, c)
         else \<exists>e es.
                resolveEntry c exCompany exTitle
                  = Inr (Some e, cachePut c (toLowerCase exCompany) (e # es))
                \<and> e \<in> set matches \<and> (\<forall>e' \<in> set matches. rowNum e' \<le> rowNum e)
                \<and> mset (e # es) = mset matches
                \<and> sorted_wrt (\<lambda>a b. rowNum b \<le> rowNum a) (e # es)"
proof -
  have nf: "(if exTitle \<noteq> MANUAL_REVIEW_NEEDED_TEXT then findByTitle exTitle matches else None) = None"
    using assms(3) by (auto simp: findByTitle_def find_None_iff)
  show ?thesis
  proof (cases "sortByRowNumDesc matches")
    case Nil
    then have e: "matches = []"
      by (metis sortByRowNumDesc_def mset_sort mset_zero_iff)
    have "resolveEntry c exCompany exTitle = Inr (None, c)"
      by (simp only: resolve_Own [OF assms(1,2)] nf Nil option.case list.case)
    then show ?thesis using e by simp
  next
    case (Cons e es)
    note props = sortByRowNumDesc_Cons [OF Cons]
    then have ne: "matches \<noteq> []" by auto
    have "resolveEntry c exCompany exTitle
            = Inr (Some e, cachePut c (toLowerCase exCompany) (e # es))"
      by (simp only: resolve_Own [OF assms(1,2)] nf Cons option.case list.case)
    then show ?thesis using props ne by auto
  qed
qed

text \<open>The row number identity resolution settles on for the first message of a run.\<close>

lemma resolve_preloaded:
  assumes "rs = rowsPreloaded rows"
  shows "sheetRowNumberToUpdate (preloadCache rows) exCompany exTitle =
     (if exCompany = MANUAL_REVIEW_NEEDED_TEXT then Inr None
      else if filter (\<lambda>i. sameCompany exCompany (rs ! i)) [0..<length rs] = []
      then (case map_of objectPrototype (toLowerCase exCompany) of
              None \<Rightarrow> Inr None
            | Some lengthPositive \<Rightarrow>
                if exTitle \<noteq> MANUAL_REVIEW_NEEDED_TEXT \<or> lengthPositive then Inl TypeError
                else Inr None)
      else
        (case (if exTitle \<noteq> MANUAL_REVIEW_NEEDED_TEXT
               then find (\<lambda>i. sameCompany exCompany (rs ! i) \<and> sameTitle exTitle (rs ! i))
                      [0..<length rs]
               else None) of
           Some i \<Rightarrow> Inr (Some (i + 2))
         | None \<Rightarrow> Inr (Some (last (filter (\<lambda>i. sameCompany exCompany (rs ! i)) [0..<length rs]) + 2))))"
proof -
  let ?k = "toLowerCase exCompany"
  let ?c = "preloadCache rows"
  let ?idxs = "filter (\<lambda>i. sameCompany exCompany (rs ! i)) [0..<length rs]"
  let ?f = "\<lambda>i. loadEntry (Suc (Suc i)) (rs ! i)"
  have look: "cacheGet ?c ?k =
                (if ?idxs \<noteq> [] then Own (map ?f ?idxs)
                 else case map_of objectPrototype ?k of
                        Some lengthPositive \<Rightarrow> Inherited lengthPositive
                      | None \<Rightarrow> Undefined)"
    by (simp add: cacheGet_preloadCache entriesFor_sameCompany assms)
  have srt: "?idxs \<noteq> [] \<Longrightarrow>
      sortByRowNumDesc (map ?f ?idxs) = ?f (last ?idxs) # tl (rev (map ?f ?idxs))"
  proof -
    assume ne: "?idxs \<noteq> []"
    then have "rev (map ?f ?idxs) \<noteq> []" by simp
    then have "rev (map ?f ?idxs) = hd (rev (map ?f ?idxs)) # tl (rev (map ?f ?idxs))"
      by simp
    moreover have "hd (rev (map ?f ?idxs)) = ?f (last ?idxs)"
      using ne by (simp add: hd_rev last_map)
    ultimately show ?thesis
      by (simp only: sortByRowNumDesc_indices)
  qed
  have rn: "\<And>i. rowNum (?f i) = Suc (Suc i)" by (simp add: loadEntry_def)
  show ?thesis
  proof (cases "exCompany = MANUAL_REVIEW_NEEDED_TEXT")
    case True
    then show ?thesis by (simp add: sheetRowNumberToUpdate_def resolve_unresolved)
  next
    case c: False
    show ?thesis
    proof (cases "?idxs = []")
      case True
      show ?thesis
      proof (cases "map_of objectPrototype ?k")
        case None
        then have "cacheGet ?c ?k = Undefined" using True look by simp
        from resolve_Undefined [OF c this] show ?thesis
          using c True None by (simp add: sheetRowNumberToUpdate_def)
      next
        case (Some b)
        then have "cacheGet ?c ?k = Inherited b" using True look by simp
        from resolve_Inherited [OF c this] show ?thesis
          using c True Some by (simp add: sheetRowNumberToUpdate_def)
      qed
    next
      case ne: False
      then have own: "cacheGet ?c ?k = Own (map ?f ?idxs)" using look by simp
      note res = resolve_Own [OF c own, of exTitle]
      show ?thesis
      proof (cases "if exTitle \<noteq> MANUAL_REVIEW_NEEDED_TEXT
               then find (\<lambda>i. sameCompany exCompany (rs ! i) \<and> sameTitle exTitle (rs ! i))
                      [0..<length rs]
               else None")
        case None
        then have "(if exTitle \<noteq> MANUAL_REVIEW_NEEDED_TEXT
                    then findByTitle exTitle (map ?f ?idxs) else None) = None"
          by (simp add: findByTitle_indices split: if_splits)
        then have "\<exists>c'. resolveEntry ?c exCompany exTitle = Inr (Some (?f (last ?idxs)), c')"
          by (simp only: res srt [OF ne] option.case list.case) simp
        then show ?thesis
          using c ne None by (auto simp: sheetRowNumberToUpdate_def rn)
      next
        case (Some i)
        then have "(if exTitle \<noteq> MANUAL_REVIEW_NEEDED_TEXT
                    then findByTitle exTitle (map ?f ?idxs) else None) = Some (?f i)"
          by (simp add: findByTitle_indices split: if_splits)
        then have "resolveEntry ?c exCompany exTitle = Inr (Some (?f i), ?c)"
          by (simp only: res option.case)
        then show ?thesis
          using c ne Some by (simp add: sheetRowNumberToUpdate_def rn)
      qed
    qed
  qed
qed

lemma resolve_preloaded_rows:
  assumes "rs = rowsPreloaded rows" and "exCompany \<noteq> MANUAL_REVIEW_NEEDED_TEXT"
  shows "((\<forall>r \<in> set rs. \<not> sameCompany exCompany r) \<longrightarrow>
            sheetRowNumberToUpdate (preloadCache rows) exCompany exTitle =
              (case map_of objectPrototype (toLowerCase exCompany) of
                 None \<Rightarrow> Inr None
               | Some lengthPositive \<Rightarrow>
                   if exTitle \<noteq> MANUAL_REVIEW_NEEDED_TEXT \<or> lengthPositive then Inl TypeError
                   else Inr None))
         \<and> ((\<exists>r \<in> set rs. sameCompany exCompany r) \<longrightarrow>
              (\<exists>i < length rs.
                 sheetRowNumberToUpdate (preloadCache rows) exCompany exTitle = Inr (Some (i + 2))
                 \<and> sameCompany exCompany (rs ! i)
                 \<and> (if exTitle \<noteq> MANUAL_REVIEW_NEEDED_TEXT
                        \<and> (\<exists>r \<in> set rs. sameCompany exCompany r \<and> sameTitle exTitle r)
                     then sameTitle exTitle (rs ! i)
                        \<and> (\<forall>j < i. \<not> (sameCompany exCompany (rs ! j) \<and> sameTitle exTitle (rs ! j)))
                     else (\<forall>j < length rs. sameCompany exCompany (rs ! j) \<longrightarrow> j \<le> i))))"
proof (intro conjI impI)
  let ?Q = "\<lambda>i. sameCompany exCompany (rs ! i)"
  let ?R = "\<lambda>i. sameCompany exCompany (rs ! i) \<and> sameTitle exTitle (rs ! i)"
  let ?idxs = "filter ?Q [0..<length rs]"
  note formula = resolve_preloaded [OF assms(1), of exCompany exTitle]
  show "sheetRowNumberToUpdate (preloadCache rows) exCompany exTitle =
              (case map_of objectPrototype (toLowerCase exCompany) of
                 None \<Rightarrow> Inr None
               | Some lengthPositive \<Rightarrow>
                   if exTitle \<noteq> MANUAL_REVIEW_NEEDED_TEXT \<or> lengthPositive then Inl TypeError
                   else Inr None)"
    if "\<forall>r \<in> set rs. \<not> sameCompany exCompany r"
  proof -
    have "?idxs = []" using that by (auto simp: filter_empty_conv)
    then show ?thesis using assms(2) by (simp add: formula)
  qed
  show "\<exists>i < length rs.
                 sheetRowNumberToUpdate (preloadCache rows) exCompany exTitle = Inr (Some (i + 2))
                 \<and> sameCompany exCompany (rs ! i)
                 \<and> (if exTitle \<noteq> MANUAL_REVIEW_NEEDED_TEXT
                        \<and> (\<exists>r \<in> set rs. sameCompany exCompany r \<and> sameTitle exTitle r)
                     then sameTitle exTitle (rs ! i)
                        \<and> (\<forall>j < i. \<not> (sameCompany exCompany (rs ! j) \<and> sameTitle exTitle (rs ! j)))
                     else (\<forall>j < length rs. sameCompany exCompany (rs ! j) \<longrightarrow> j \<le> i))"
    if h: "\<exists>r \<in> set rs. sameCompany exCompany r"
  proof -
    from h obtain i0 where "i0 < length rs" "?Q i0"
      by (auto simp: in_set_conv_nth)
    then have ne: "?idxs \<noteq> []" by (auto simp: filter_empty_conv)
    note lst = last_filter_upt [OF ne]
    have ex: "(\<exists>r \<in> set rs. sameCompany exCompany r \<and> sameTitle exTitle r)
                \<longleftrightarrow> (\<exists>j < length rs. ?R j)"
      by (metis in_set_conv_nth)
    show ?thesis
    proof (cases "exTitle \<noteq> MANUAL_REVIEW_NEEDED_TEXT \<and> (\<exists>j < length rs. ?R j)")
      case True
      then have "find ?R [0..<length rs] \<noteq> None"
        by (simp add: find_upt_None)
      then obtain i where fi: "find ?R [0..<length rs] = Some i" by blast
      then have i: "i < length rs" "?R i" "\<forall>j<i. \<not> ?R j"
        by (simp_all add: find_upt)
      have "sheetRowNumberToUpdate (preloadCache rows) exCompany exTitle = Inr (Some (i + 2))"
        using assms(2) ne True fi by (simp add: formula)
      then show ?thesis
        using i True ex by auto
    next
      case False
      then have "exTitle = MANUAL_REVIEW_NEEDED_TEXT \<or> find ?R [0..<length rs] = None"
        by (auto simp: find_upt_None)
      then have "sheetRowNumberToUpdate (preloadCache rows) exCompany exTitle
                   = Inr (Some (last ?idxs + 2))"
        using assms(2) ne by (auto simp: formula)
      then show ?thesis
        using lst False ex by auto
    qed
  qed
qed

text \<open>What the loop body does with the outcome of the resolution.\<close>

lemma processMessage_thrown:
  "resolveEntry c (extractedCompany ev) (extractedTitle ev) = Inl err \<Longrightarrow>
     processMessage parseDate now ev (rows, c) = (rows, c)"
  by (simp add: processMessage_def)

lemma processMessage_match:
  "resolveEntry c (extractedCompany ev) (extractedTitle ev) = Inr (Some e, c1) \<Longrightarrow>
     fst (processMessage parseDate now ev (rows, c)) =
       writeRow rows (rowNum e) (updateRow parseDate now ev e (readRow rows (rowNum e)))"
  by (simp add: processMessage_def Let_def split: sum.splits)

lemma resolve_None:
  assumes "resolveEntry c exCompany exTitle = Inr (None, c1)"
  shows "c1 = c \<and> (\<forall>ms. cacheGet c (toLowerCase exCompany) = Own ms \<and>
                         exCompany \<noteq> MANUAL_REVIEW_NEEDED_TEXT \<longrightarrow> ms = [])"
proof -
  have "ms = []" if "sortByRowNumDesc ms = []" for ms
    using that by (metis sortByRowNumDesc_def mset_sort mset_zero_iff)
  then show ?thesis
    using assms
    by (auto simp: resolveEntry_def Let_def split: if_splits property.splits option.splits list.splits)
qed

lemma processMessage_no_match:
  assumes "resolveEntry c (extractedCompany ev) (extractedTitle ev) = Inr (None, c1)"
  shows "fst (processMessage parseDate now ev (rows, c)) = rows @ [newRow now ev]
         \<and> (extractedCompany ev \<noteq> MANUAL_REVIEW_NEEDED_TEXT
              \<and> map_of objectPrototype (toLowerCase (extractedCompany ev)) = None
            \<longrightarrow> cacheGet (snd (processMessage parseDate now ev (rows, c)))
                   (toLowerCase (extractedCompany ev))
                  = Own [newEntry (length rows + 2) ev])"
proof (intro conjI impI)
  show "fst (processMessage parseDate now ev (rows, c)) = rows @ [newRow now ev]"
    using assms by (simp add: processMessage_def Let_def split: sum.splits)
next
  let ?k = "toLowerCase (extractedCompany ev)"
  let ?e = "newEntry (length rows + 2) ev"
  assume h: "extractedCompany ev \<noteq> MANUAL_REVIEW_NEEDED_TEXT \<and> map_of objectPrototype ?k = None"
  note n = resolve_None [OF assms]
  have "cachePush c ?k ?e = Inr (cachePut c ?k [?e])"
  proof (cases "cacheGet c ?k")
    case (Own ms)
    then have "ms = []" using n h by blast
    then show ?thesis using Own by (simp add: cachePush_def)
  next
    case (Inherited b)
    then show ?thesis using h by (simp add: cacheGet_def split: option.splits)
  next
    case Undefined
    then show ?thesis by (simp add: cachePush_def)
  qed
  then have "snd (processMessage parseDate now ev (rows, c)) = cachePut c ?k [?e]"
    using assms n h by (simp add: processMessage_def Let_def)
  then show "cacheGet (snd (processMessage parseDate now ev (rows, c))) ?k = Own [?e]"
    by (simp add: cacheGet_cachePut)
qed

text \<open>A sheet without a company of an inherited name is preloaded to its end.\<close>

lemma rowsPreloaded_all:
  "\<forall>r \<in> set rows. map_of objectPrototype (companyLCKey r) = None \<Longrightarrow> rowsPreloaded rows = rows"
  by (simp add: rowsPreloaded_def)

text \<open>
  C6, as the code has it. Resolution returns no entry, and the loop body appends a new
  row, when the extracted company is the manual-review sentinel. Otherwise it reads the
  cache, as the run has it at that moment, under the lower-cased extracted company. Where
  the cache lists no entry there, it returns no entry; the row then appended becomes the
  one entry listed under its lower-cased company. Where the cache lists entries: if the
  title is resolved and some entry's cached title equals it up to letter case, the first
  such entry in the order of the list at that moment is selected; in every other case the
  entry with the greatest row number is selected, that is the row appended last, whatever
  the last-update dates, and the list is left sorted by descending row number. The row of
  the entry selected is the row the loop body rewrites.

  For the first message of a run this reads on the sheet: the rows listed under a company
  are the preloaded rows whose trimmed, lower-cased company equals the lower-cased
  extracted company and is not empty, the sentinel or \<open>n/a\<close>; a title match selects
  the first such row in sheet order, and the fallback the last.

  The theorem also says what the code does for a company that lower-cases to a name the
  cache object inherits: the lookup throws and the loop body drops the message, except
  that with an unresolved title and an inherited value without positive \<open>length\<close> no
  entry is returned.
\<close>

theorem C6_identity_resolution:
  assumes "exCompany = extractedCompany ev" and "exTitle = extractedTitle ev"
  shows
  "(exCompany = MANUAL_REVIEW_NEEDED_TEXT \<longrightarrow> resolveEntry c exCompany exTitle = Inr (None, c))
   \<and> (exCompany \<noteq> MANUAL_REVIEW_NEEDED_TEXT \<longrightarrow>
        (case cacheGet c (toLowerCase exCompany) of
           Undefined \<Rightarrow> resolveEntry c exCompany exTitle = Inr (None, c)
         | Inherited lengthPositive \<Rightarrow>
             resolveEntry c exCompany exTitle =
               (if exTitle \<noteq> MANUAL_REVIEW_NEEDED_TEXT \<or> lengthPositive then Inl TypeError
                else Inr (None, c))
         | Own matches \<Rightarrow>
             (if exTitle \<noteq> MANUAL_REVIEW_NEEDED_TEXT \<and> (\<exists>e \<in> set matches. titleMatches exTitle e)
              then \<exists>i < length matches.
                     resolveEntry c exCompany exTitle = Inr (Some (matches ! i), c)
                     \<and> titleMatches exTitle (matches ! i)
                     \<and> (\<forall>j < i. \<not> titleMatches exTitle (matches ! j))
              else if matches = [] then resolveEntry c exCompany exTitle = Inr (None, c)
              else \<exists>e es.
                     resolveEntry c exCompany exTitle
                       = Inr (Some e, cachePut c (toLowerCase exCompany) (e # es))
                     \<and> e \<in> set matches \<and> (\<forall>e' \<in> set matches. rowNum e' \<le> rowNum e)
                     \<and> mset (e # es) = mset matches
                     \<and> sorted_wrt (\<lambda>a b. rowNum b \<le> rowNum a) (e # es))))
   \<and> (exCompany \<noteq> MANUAL_REVIEW_NEEDED_TEXT \<longrightarrow>
        ((\<forall>r \<in> set (rowsPreloaded startRows). \<not> sameCompany exCompany r) \<longrightarrow>
            sheetRowNumberToUpdate (preloadCache startRows) exCompany exTitle =
              (case map_of objectPrototype (toLowerCase exCompany) of
                 None \<Rightarrow> Inr None
               | Some lengthPositive \<Rightarrow>
                   if exTitle \<noteq> MANUAL_REVIEW_NEEDED_TEXT \<or> lengthPositive then Inl TypeError
                   else Inr None))
        \<and> ((\<exists>r \<in> set (rowsPreloaded startRows). sameCompany exCompany r) \<longrightarrow>
              (\<exists>i < length (rowsPreloaded startRows).
                 sheetRowNumberToUpdate (preloadCache startRows) exCompany exTitle = Inr (Some (i + 2))
                 \<and> sameCompany exCompany (rowsPreloaded startRows ! i)
                 \<and> (if exTitle \<noteq> MANUAL_REVIEW_NEEDED_TEXT
                        \<and> (\<exists>r \<in> set (rowsPreloaded startRows).
                              sameCompany exCompany r \<and> sameTitle exTitle r)
                     then sameTitle exTitle (rowsPreloaded startRows ! i)
                        \<and> (\<forall>j < i. \<not> (sameCompany exCompany (rowsPreloaded startRows ! j)
                                        \<and> sameTitle exTitle (rowsPreloaded startRows ! j)))
                     else (\<forall>j < length (rowsPreloaded startRows).
                             sameCompany exCompany (rowsPreloaded startRows ! j) \<longrightarrow> j \<le> i)))))
   \<and> (\<forall>err. resolveEntry c exCompany exTitle = Inl err \<longrightarrow>
          processMessage parseDate now ev (rows, c) = (rows, c))
   \<and> (\<forall>c1. resolveEntry c exCompany exTitle = Inr (None, c1) \<longrightarrow>
          fst (processMessage parseDate now ev (rows, c)) = rows @ [newRow now ev]
          \<and> (exCompany \<noteq> MANUAL_REVIEW_NEEDED_TEXT
               \<and> map_of objectPrototype (toLowerCase exCompany) = None
             \<longrightarrow> cacheGet (snd (processMessage parseDate now ev (rows, c))) (toLowerCase exCompany)
                   = Own [newEntry (length rows + 2) ev]))
   \<and> (\<forall>e c1. resolveEntry c exCompany exTitle = Inr (Some e, c1) \<longrightarrow>
          fst (processMessage parseDate now ev (rows, c)) =
            writeRow rows (rowNum e) (updateRow parseDate now ev e (readRow rows (rowNum e))))"
proof (intro conjI impI allI)
  show "resolveEntry c exCompany exTitle = Inr (None, c)"
    if "exCompany = MANUAL_REVIEW_NEEDED_TEXT"
    using that by (simp add: resolve_unresolved)
next
  assume c: "exCompany \<noteq> MANUAL_REVIEW_NEEDED_TEXT"
  show "case cacheGet c (toLowerCase exCompany) of
           Undefined \<Rightarrow> resolveEntry c exCompany exTitle = Inr (None, c)
         | Inherited lengthPositive \<Rightarrow>
             resolveEntry c exCompany exTitle =
               (if exTitle \<noteq> MANUAL_REVIEW_NEEDED_TEXT \<or> lengthPositive then Inl TypeError
                else Inr (None, c))
         | Own matches \<Rightarrow>
             (if exTitle \<noteq> MANUAL_REVIEW_NEEDED_TEXT \<and> (\<exists>e \<in> set matches. titleMatches exTitle e)
              then \<exists>i < length matches.
                     resolveEntry c exCompany exTitle = Inr (Some (matches ! i), c)
                     \<and> titleMatches exTitle (matches ! i)
                     \<and> (\<forall>j < i. \<not> titleMatches exTitle (matches ! j))
              else if matches = [] then resolveEntry c exCompany exTitle = Inr (None, c)
              else \<exists>e es.
                     resolveEntry c exCompany exTitle
                       = Inr (Some e, cachePut c (toLowerCase exCompany) (e # es))
                     \<and> e \<in> set matches \<and> (\<forall>e' \<in> set matches. rowNum e' \<le> rowNum e)
                     \<and> mset (e # es) = mset matches
                     \<and> sorted_wrt (\<lambda>a b. rowNum b \<le> rowNum a) (e # es))"
  proof (cases "cacheGet c (toLowerCase exCompany)")
    case Undefined
    from resolve_Undefined [OF c this] show ?thesis
      by (simp only: Undefined property.case)
  next
    case (Inherited b)
    from resolve_Inherited [OF c this] show ?thesis
      by (simp only: Inherited property.case)
  next
    case (Own matches)
    show ?thesis
    proof (cases "exTitle \<noteq> MANUAL_REVIEW_NEEDED_TEXT \<and> (\<exists>e \<in> set matches. titleMatches exTitle e)")
      case True
      show ?thesis
        unfolding Own property.case if_P [OF True]
        by (rule resolve_by_title [OF c Own conjunct1 [OF True] conjunct2 [OF True]])
    next
      case False
      then have "exTitle = MANUAL_REVIEW_NEEDED_TEXT \<or> (\<forall>e \<in> set matches. \<not> titleMatches exTitle e)"
        by blast
      from resolve_fallback [OF c Own this] show ?thesis
        unfolding Own property.case if_not_P [OF False] .
    qed
  qed
next
  assume c: "exCompany \<noteq> MANUAL_REVIEW_NEEDED_TEXT"
  note r = resolve_preloaded_rows [OF refl c, of startRows exTitle]
  show "(\<forall>r \<in> set (rowsPreloaded startRows). \<not> sameCompany exCompany r) \<Longrightarrow>
            sheetRowNumberToUpdate (preloadCache startRows) exCompany exTitle =
              (case map_of objectPrototype (toLowerCase exCompany) of
                 None \<Rightarrow> Inr None
               | Some lengthPositive \<Rightarrow>
                   if exTitle \<noteq> MANUAL_REVIEW_NEEDED_TEXT \<or> lengthPositive then Inl TypeError
                   else Inr None)"
    by (rule mp [OF conjunct1 [OF r]])
  show "(\<exists>r \<in> set (rowsPreloaded startRows). sameCompany exCompany r) \<Longrightarrow>
              (\<exists>i < length (rowsPreloaded startRows).
                 sheetRowNumberToUpdate (preloadCache startRows) exCompany exTitle = Inr (Some (i + 2))
                 \<and> sameCompany exCompany (rowsPreloaded startRows ! i)
                 \<and> (if exTitle \<noteq> MANUAL_REVIEW_NEEDED_TEXT
                        \<and> (\<exists>r \<in> set (rowsPreloaded startRows).
                              sameCompany exCompany r \<and> sameTitle exTitle r)
                     then sameTitle exTitle (rowsPreloaded startRows ! i)
                        \<and> (\<forall>j < i. \<not> (sameCompany exCompany (rowsPreloaded startRows ! j)
                                        \<and> sameTitle exTitle (rowsPreloaded startRows ! j)))
                     else (\<forall>j < length (rowsPreloaded startRows).
                             sameCompany exCompany (rowsPreloaded startRows ! j) \<longrightarrow> j \<le> i)))"
    by (rule mp [OF conjunct2 [OF r]])
next
  fix err
  assume "resolveEntry c exCompany exTitle = Inl err"
  then show "processMessage parseDate now ev (rows, c) = (rows, c)"
    unfolding assms by (rule processMessage_thrown)
next
  fix c1
  assume n: "resolveEntry c exCompany exTitle = Inr (None, c1)"
  note pm = processMessage_no_match [OF n [unfolded assms], of parseDate now rows]
  show "fst (processMessage parseDate now ev (rows, c)) = rows @ [newRow now ev]"
    by (rule conjunct1 [OF pm])
  show "cacheGet (snd (processMessage parseDate now ev (rows, c))) (toLowerCase exCompany)
          = Own [newEntry (length rows + 2) ev]"
    if "exCompany \<noteq> MANUAL_REVIEW_NEEDED_TEXT \<and> map_of objectPrototype (toLowerCase exCompany) = None"
    using that conjunct2 [OF pm] unfolding assms by blast
next
  fix e c1
  assume "resolveEntry c exCompany exTitle = Inr (Some e, c1)"
  then show "fst (processMessage parseDate now ev (rows, c)) =
            writeRow rows (rowNum e) (updateRow parseDate now ev e (readRow rows (rowNum e)))"
    unfolding assms by (rule processMessage_match)
qed

text \<open>
  The witness takes the sheet of three rows (two applications at Acme, one at Globex) as
  the run finds it. An unresolved company and a company without a row find nothing, and
  the latter message is appended. A company named \<open>Constructor\<close> makes the lookup throw
  and the message is dropped. Under \<open>acme\<close> the cache lists rows 2 and 3: the title
  \<open>ENGINEER\<close> matches an entry of the list, and the row of the entry selected is
  rewritten; the title \<open>Manager\<close> matches none and the entry with the greatest row
  number is selected. On the sheet, a title that matches selects its row, and every other
  title the Acme row appended last.
\<close>

theorem C6_identity_resolution_witness:
  "resolveEntry (preloadCache rows_two_acme) MANUAL_REVIEW_NEEDED_TEXT MANUAL_REVIEW_NEEDED_TEXT
     = Inr (None, preloadCache rows_two_acme)
   \<and> sheetRowNumberToUpdate (preloadCache rows_two_acme) ''Initech'' ''Engineer'' = Inr None
   \<and> fst (processMessage (\<lambda>_. None) 7000 (ev_for ''Initech'' ''Engineer'')
            (rows_two_acme, preloadCache rows_two_acme))
       = rows_two_acme @ [newRow 7000 (ev_for ''Initech'' ''Engineer'')]
   \<and> processMessage (\<lambda>_. None) 7000 (ev_for ''Constructor'' ''Engineer'')
        (rows_two_acme, preloadCache rows_two_acme)
       = (rows_two_acme, preloadCache rows_two_acme)
   \<and> (\<exists>i < length [loadEntry 2 (rows_two_acme ! 0), loadEntry 3 (rows_two_acme ! 1)].
         resolveEntry (preloadCache rows_two_acme) ''acme'' ''ENGINEER''
           = Inr (Some ([loadEntry 2 (rows_two_acme ! 0), loadEntry 3 (rows_two_acme ! 1)] ! i),
                  preloadCache rows_two_acme)
         \<and> titleMatches ''ENGINEER''
              ([loadEntry 2 (rows_two_acme ! 0), loadEntry 3 (rows_two_acme ! 1)] ! i)
         \<and> (\<forall>j < i. \<not> titleMatches ''ENGINEER''
                ([loadEntry 2 (rows_two_acme ! 0), loadEntry 3 (rows_two_acme ! 1)] ! j)))
   \<and> fst (processMessage (\<lambda>_. None) 7000 (ev_for ''acme'' ''ENGINEER'')
            (rows_two_acme, preloadCache rows_two_acme))
       = writeRow rows_two_acme 2
           (updateRow (\<lambda>_. None) 7000 (ev_for ''acme'' ''ENGINEER'')
              (loadEntry 2 (rows_two_acme ! 0)) (readRow rows_two_acme 2))
   \<and> (\<exists>e es.
         resolveEntry (preloadCache rows_two_acme) ''acme'' ''Manager''
           = Inr (Some e, cachePut (preloadCache rows_two_acme) (toLowerCase ''acme'') (e # es))
         \<and> e \<in> set [loadEntry 2 (rows_two_acme ! 0), loadEntry 3 (rows_two_acme ! 1)]
         \<and> (\<forall>e' \<in> set [loadEntry 2 (rows_two_acme ! 0), loadEntry 3 (rows_two_acme ! 1)].
               rowNum e' \<le> rowNum e)
         \<and> mset (e # es) = mset [loadEntry 2 (rows_two_acme ! 0), loadEntry 3 (rows_two_acme ! 1)]
         \<and> sorted_wrt (\<lambda>a b. rowNum b \<le> rowNum a) (e # es))
   \<and> (\<exists>r \<in> set (rowsPreloaded rows_two_acme). sameCompany ''acme'' r)
   \<and> sheetRowNumberToUpdate (preloadCache rows_two_acme) ''acme'' ''ENGINEER'' = Inr (Some 2)
   \<and> sheetRowNumberToUpdate (preloadCache rows_two_acme) ''acme'' ''analyst'' = Inr (Some 3)
   \<and> sheetRowNumberToUpdate (preloadCache rows_two_acme) ''acme'' ''Manager'' = Inr (Some 3)
   \<and> sheetRowNumberToUpdate (preloadCache rows_two_acme) ''acme'' MANUAL_REVIEW_NEEDED_TEXT
       = Inr (Some 3)"
proof -
  let ?c = "preloadCache rows_two_acme"
  let ?ms = "[loadEntry 2 (rows_two_acme ! 0), loadEntry 3 (rows_two_acme ! 1)]"
  have p1: "MANUAL_REVIEW_NEEDED_TEXT = extractedCompany ev_unresolved"
    and p2: "MANUAL_REVIEW_NEEDED_TEXT = extractedTitle ev_unresolved"
    by (simp_all add: ev_unresolved_def)
  have q2: "''Initech'' = extractedCompany (ev_for ''Initech'' ''Engineer'')"
      "''Engineer'' = extractedTitle (ev_for ''Initech'' ''Engineer'')"
    and q3: "''Constructor'' = extractedCompany (ev_for ''Constructor'' ''Engineer'')"
      "''Engineer'' = extractedTitle (ev_for ''Constructor'' ''Engineer'')"
    and q4: "''acme'' = extractedCompany (ev_for ''acme'' ''ENGINEER'')"
      "''ENGINEER'' = extractedTitle (ev_for ''acme'' ''ENGINEER'')"
    and q5: "''acme'' = extractedCompany (ev_for ''acme'' ''Manager'')"
      "''Manager'' = extractedTitle (ev_for ''acme'' ''Manager'')"
    by (simp_all add: ev_for_def)
  note t1 = C6_identity_resolution [OF p1 p2, where c = ?c]
  note t2 = C6_identity_resolution [OF q2, where c = ?c and startRows = rows_two_acme
      and rows = rows_two_acme and parseDate = "\<lambda>_. None" and now = 7000]
  note t3 = C6_identity_resolution [OF q3, where c = ?c and rows = rows_two_acme
      and parseDate = "\<lambda>_. None" and now = 7000]
  note t4 = C6_identity_resolution [OF q4, where c = ?c and rows = rows_two_acme
      and parseDate = "\<lambda>_. None" and now = 7000]
  note t5 = C6_identity_resolution [OF q5, where c = ?c]
  have neq: "''Initech'' \<noteq> MANUAL_REVIEW_NEEDED_TEXT"
    and neq_acme: "''acme'' \<noteq> MANUAL_REVIEW_NEEDED_TEXT"
    by code_simp+
  have none: "\<forall>r \<in> set (rowsPreloaded rows_two_acme). \<not> sameCompany ''Initech'' r"
    by code_simp
  have rhs: "(case map_of objectPrototype (toLowerCase ''Initech'') of
                None \<Rightarrow> Inr None
              | Some lengthPositive \<Rightarrow>
                  if ''Engineer'' \<noteq> MANUAL_REVIEW_NEEDED_TEXT \<or> lengthPositive then Inl TypeError
                  else Inr None) = (Inr None :: error + nat option)"
    by code_simp
  have nomatch: "resolveEntry ?c ''Initech'' ''Engineer'' = Inr (None, ?c)"
    by code_simp
  have thrown: "resolveEntry ?c ''Constructor'' ''Engineer'' = Inl TypeError"
    by code_simp
  have listed: "cacheGet ?c (toLowerCase ''acme'') = Own ?ms"
    by code_simp
  have by_title: "''ENGINEER'' \<noteq> MANUAL_REVIEW_NEEDED_TEXT
                    \<and> (\<exists>e \<in> set ?ms. titleMatches ''ENGINEER'' e)"
    by code_simp
  have no_title: "\<not> (''Manager'' \<noteq> MANUAL_REVIEW_NEEDED_TEXT
                        \<and> (\<exists>e \<in> set ?ms. titleMatches ''Manager'' e))"
    by code_simp
  have nonempty: "?ms \<noteq> []"
    by simp
  have found: "resolveEntry ?c ''acme'' ''ENGINEER'' = Inr (Some (loadEntry 2 (rows_two_acme ! 0)), ?c)"
    by code_simp
  have rn: "rowNum (loadEntry 2 (rows_two_acme ! 0)) = 2"
    by (simp add: loadEntry_def)
  have some: "\<exists>r \<in> set (rowsPreloaded rows_two_acme). sameCompany ''acme'' r"
    by code_simp
  have v1: "sheetRowNumberToUpdate ?c ''acme'' ''ENGINEER'' = Inr (Some 2)"
    by code_simp
  have v2: "sheetRowNumberToUpdate ?c ''acme'' ''analyst'' = Inr (Some 3)"
    by code_simp
  have v3: "sheetRowNumberToUpdate ?c ''acme'' ''Manager'' = Inr (Some 3)"
    by code_simp
  have v4: "sheetRowNumberToUpdate ?c ''acme'' MANUAL_REVIEW_NEEDED_TEXT = Inr (Some 3)"
    by code_simp
  note sheet2 = mp [OF conjunct1 [OF conjunct2 [OF conjunct2 [OF t2]]] neq]
  note append2 = conjunct1 [OF conjunct2 [OF conjunct2 [OF conjunct2 [OF conjunct2 [OF t2]]]]]
  note drop3 = conjunct1 [OF conjunct2 [OF conjunct2 [OF conjunct2 [OF t3]]]]
  note title4 = mp [OF conjunct1 [OF conjunct2 [OF t4]] neq_acme,
      unfolded listed property.case if_P [OF by_title]]
  note rewrite4 = mp [OF spec [OF spec [OF conjunct2 [OF conjunct2 [OF conjunct2 [OF conjunct2
      [OF conjunct2 [OF t4]]]]]]] found, unfolded rn]
  note fallback5 = mp [OF conjunct1 [OF conjunct2 [OF t5]] neq_acme,
      unfolded listed property.case if_not_P [OF no_title] if_not_P [OF nonempty]]
  show ?thesis
    by (intro conjI mp [OF conjunct1 [OF t1] refl]
        trans [OF mp [OF conjunct1 [OF sheet2] none] rhs]
        conjunct1 [OF mp [OF spec [OF append2] nomatch]]
        mp [OF spec [OF drop3] thrown]
        title4 rewrite4 fallback5
        some v1 v2 v3 v4)
qed

text \<open>
  The claim as first stated fails: with the title unresolved, resolution settles on sheet
  row 3, the Acme row appended last, although row 2 is the Acme row updated most recently.
\<close>

theorem C6_last_appended_not_last_updated:
  "sheetRowNumberToUpdate (preloadCache rows_two_acme) ''Acme'' MANUAL_REVIEW_NEEDED_TEXT
     = Inr (Some 3)
   \<and> lastUpdateDateCol (rows_two_acme ! 0) = DateCell 9000
   \<and> lastUpdateDateCol (rows_two_acme ! 1) = DateCell 1000
   \<and> sameCompany ''Acme'' (rows_two_acme ! 0)
   \<and> sameCompany ''Acme'' (rows_two_acme ! 1)"
  by code_simp

text \<open>
  Within a run the order of a company's array changes. With two rows for the same
  application, a fresh cache gives a title match to row 2; once a message without a title
  has gone through the fallback, the array is sorted by descending row number and the
  same title goes to row 3.
\<close>

lemma title_search_follows_cache_order:
  "sheetRowNumberToUpdate (preloadCache rows_acme_twice) ''Acme'' ''Engineer'' = Inr (Some 2)
   \<and> sheetRowNumberToUpdate (preloadCache rows_acme_twice) ''Acme'' MANUAL_REVIEW_NEEDED_TEXT
       = Inr (Some 3)
   \<and> sheetRowNumberToUpdate
        (snd (processMessage (\<lambda>_. None) 7000 (ev_for ''Acme'' MANUAL_REVIEW_NEEDED_TEXT)
                (rows_acme_twice, preloadCache rows_acme_twice)))
        ''Acme'' ''Engineer'' = Inr (Some 3)"
  by code_simp

text \<open>
  A row the run appends is cached under its lower-cased company whatever that is: two
  messages for the company \<open>N/A\<close> in one run land in one row, while the next run's
  preload leaves that row out and a third message is appended again.
\<close>

lemma appended_row_cached_under_any_company:
  "processMessage (\<lambda>_. None) 7000 (ev_for ''N/A'' ''Engineer'') ([], [])
     = ([newRow 7000 (ev_for ''N/A'' ''Engineer'')],
        [(''n/a'', [newEntry 2 (ev_for ''N/A'' ''Engineer'')])])
   \<and> sheetRowNumberToUpdate [(''n/a'', [newEntry 2 (ev_for ''N/A'' ''Engineer'')])]
        ''N/A'' ''Engineer'' = Inr (Some 2)
   \<and> preloadCache [newRow 7000 (ev_for ''N/A'' ''Engineer'')] = []
   \<and> sheetRowNumberToUpdate (preloadCache [newRow 7000 (ev_for ''N/A'' ''Engineer'')])
        ''N/A'' ''Engineer'' = Inr None"
  by code_simp

text \<open>
  A company that lower-cases to an inherited name. In the sheet it ends the preload, so
  the Globex row after it is not found. As the company of a message it makes the lookup
  throw; with \<open>__proto__\<close> and no title the message is appended and then not cached.
\<close>

lemma inherited_name_as_company:
  "map companyCol rows_constructor = [''Acme'', ''Constructor'', ''Globex'']
   \<and> preloadCache rows_constructor = [(''acme'', [loadEntry 2 row_acme])]
   \<and> sheetRowNumberToUpdate (preloadCache rows_constructor) ''Globex'' ''Engineer'' = Inr None
   \<and> sheetRowNumberToUpdate (preloadCache rows_constructor) ''Constructor'' ''Engineer''
       = Inl TypeError
   \<and> sheetRowNumberToUpdate (preloadCache rows_constructor) ''Constructor''
        MANUAL_REVIEW_NEEDED_TEXT = Inl TypeError
   \<and> processMessage (\<lambda>_. None) 7000 (ev_for ''__proto__'' MANUAL_REVIEW_NEEDED_TEXT) ([], [])
       = ([newRow 7000 (ev_for ''__proto__'' MANUAL_REVIEW_NEEDED_TEXT)], [])"
  by code_simp

section \<open>Which messages a run takes up\<close>

lemma entries_cachePut_Some:
  "map_of c k = Some es \<Longrightarrow>
     set (cacheEntries (cachePut c k (es @ [e]))) = insert e (set (cacheEntries c))"
proof (induction c)
  case Nil
  then show ?case by simp
next
  case (Cons p c)
  obtain k' es' where p: "p = (k', es')" by (cases p)
  show ?case
  proof (cases "k' = k")
    case True
    then have "es' = es" using Cons.prems p by simp
    then show ?thesis using True p by (auto simp: cacheEntries_def)
  next
    case False
    then have "map_of c k = Some es" using Cons.prems p by simp
    from Cons.IH [OF this] show ?thesis
      using False p by (auto simp: cacheEntries_def)
  qed
qed

lemma entries_cachePut_None:
  "map_of c k = None \<Longrightarrow>
     set (cacheEntries (cachePut c k [e])) = insert e (set (cacheEntries c))"
proof (induction c)
  case Nil
  then show ?case by (simp add: cacheEntries_def)
next
  case (Cons p c)
  obtain k' es' where p: "p = (k', es')" by (cases p)
  have "k' \<noteq> k" and "map_of c k = None"
    using Cons.prems p by (auto split: if_splits)
  from Cons.IH [OF this(2)] show ?case
    using \<open>k' \<noteq> k\<close> p by (auto simp: cacheEntries_def)
qed

lemma entries_cachePush:
  "cachePush c k e = Inr c' \<Longrightarrow> set (cacheEntries c') = insert e (set (cacheEntries c))"
  by (cases "map_of c k")
     (auto simp: cachePush_Inr entries_cachePut_None entries_cachePut_Some)

lemma entries_preloadRows:
  assumes "noShadowing c"
  shows "emailId ` set (cacheEntries (preloadRows n rows c)) =
     emailId ` set (cacheEntries c)
       \<union> {trim (emailIdCol r) | r. r \<in> set (rowsPreloaded rows) \<and> cachedKey (companyLCKey r)}"
  using assms
proof (induction rows arbitrary: n c)
  case Nil
  then show ?case by (simp add: rowsPreloaded_def)
next
  case (Cons r rs)
  let ?k = "companyLCKey r"
  let ?e = "loadEntry (n + 2) r"
  show ?case
  proof (cases "map_of objectPrototype ?k")
    case (Some b)
    then have ck: "cachedKey ?k" by (rule inherited_cachedKey)
    have "map_of c ?k = None" using Cons.prems Some by (simp add: noShadowing_def)
    then have "cachePush c ?k ?e = Inl TypeError"
      using Some by (simp add: cachePush_Inl)
    then show ?thesis
      using Some ck by (simp add: rowsPreloaded_def)
  next
    case None
    have rp: "rowsPreloaded (r # rs) = r # rowsPreloaded rs"
      using None by (simp add: rowsPreloaded_def)
    show ?thesis
    proof (cases "cachedKey ?k")
      case False
      then show ?thesis
        using Cons.IH [OF Cons.prems, of "Suc n"] by (auto simp: rp)
    next
      case True
      let ?c' = "cachePut c ?k ((case map_of c ?k of None \<Rightarrow> [] | Some es \<Rightarrow> es) @ [?e])"
      have push: "cachePush c ?k ?e = Inr ?c'"
        using None by (simp add: cachePush_Inr)
      have "noShadowing ?c'"
        using Cons.prems None by (rule noShadowing_cachePut)
      from Cons.IH [OF this, of "Suc n"] show ?thesis
        using True push entries_cachePush [OF push] by (auto simp: rp loadEntry_def)
    qed
  qed
qed

text \<open>
  The ids a run treats as already in the sheet are those of the rows the preload caches:
  rows whose company is empty, the manual-review sentinel or \<open>n/a\<close> contribute none, nor
  do the rows the preload does not get to.
\<close>

lemma emailIdsAlreadyInSheet_preload:
  "set (emailIdsAlreadyInSheet (preloadCache rows)) =
     {trim (emailIdCol r) | r.
        r \<in> set (rowsPreloaded rows) \<and> cachedKey (companyLCKey r) \<and> trim (emailIdCol r) \<noteq> []}"
proof -
  have n: "noShadowing []" by (simp add: noShadowing_def)
  have "set (emailIdsAlreadyInSheet (preloadCache rows)) =
          {i \<in> emailId ` set (cacheEntries (preloadRows 0 rows [])). i \<noteq> []}"
    by (simp add: emailIdsAlreadyInSheet_def preloadCache_def)
  also have "\<dots> = {trim (emailIdCol r) | r.
        r \<in> set (rowsPreloaded rows) \<and> cachedKey (companyLCKey r) \<and> trim (emailIdCol r) \<noteq> []}"
    unfolding entries_preloadRows [OF n] by (auto simp: cacheEntries_def)
  finally show ?thesis .
qed

lemma scanMessages_new:
  assumes "\<forall>m \<in> set (fst st). getId (messageObj m) \<notin> set inSheet"
  shows "\<forall>m \<in> set (fst (scanMessages inSheet tid msgs st)). getId (messageObj m) \<notin> set inSheet"
  using assms
proof (induction msgs arbitrary: st)
  case Nil
  then show ?case by simp
next
  case (Cons msg msgs)
  obtain new seen where st: "st = (new, seen)" by (cases st)
  let ?st' = "if getId msg \<notin> set inSheet \<and> getId msg \<notin> set seen
              then (new @ [\<lparr>messageObj = msg, gmailThreadId = tid\<rparr>], seen @ [getId msg])
              else (new, seen)"
  have "\<forall>m \<in> set (fst ?st'). getId (messageObj m) \<notin> set inSheet"
    using Cons.prems by (auto simp: st)
  from Cons.IH [OF this] show ?case
    by (simp add: st)
qed

lemma scanThreads_new:
  assumes "\<forall>m \<in> set (fst st). getId (messageObj m) \<notin> set inSheet"
  shows "\<forall>m \<in> set (fst (scanThreads inSheet threads st)). getId (messageObj m) \<notin> set inSheet"
  using assms
proof (induction threads arbitrary: st)
  case Nil
  then show ?case by simp
next
  case (Cons t ts)
  have "\<forall>m \<in> set (fst (scanMessages inSheet (threadId t) (getMessages t) st)).
          getId (messageObj m) \<notin> set inSheet"
    using Cons.prems by (rule scanMessages_new)
  from Cons.IH [OF this] show ?case by simp
qed

text \<open>A message whose id is among the cached ids is never taken up again.\<close>

lemma cached_message_skipped:
  assumes "m \<in> set (newMessagesList rows threads)"
  shows "getId (messageObj m) \<notin> set (emailIdsAlreadyInSheet (preloadCache rows))"
proof -
  have "\<forall>m \<in> set (fst (scanThreads (emailIdsAlreadyInSheet (preloadCache rows)) threads ([], []))).
          getId (messageObj m) \<notin> set (emailIdsAlreadyInSheet (preloadCache rows))"
    by (rule scanThreads_new) simp
  then show ?thesis
    using assms by (simp add: newMessagesList_def)
qed

lemma scanMessages_all_known:
  assumes "\<forall>msg \<in> set msgs. getId msg \<in> set inSheet"
  shows "scanMessages inSheet tid msgs st = st"
  using assms
proof (induction msgs arbitrary: st)
  case Nil
  then show ?case by simp
next
  case (Cons msg msgs)
  obtain new seen where st: "st = (new, seen)" by (cases st)
  show ?case
    unfolding st using Cons by simp
qed

lemma scanThreads_all_known:
  assumes "\<forall>t \<in> set threads. \<forall>msg \<in> set (getMessages t). getId msg \<in> set inSheet"
  shows "scanThreads inSheet threads st = st"
  using assms
  by (induction threads arbitrary: st) (simp_all add: scanMessages_all_known)

text \<open>When every message scanned has its id among the cached ids, the run changes no row.\<close>

lemma run_unchanged_when_all_cached:
  assumes "\<forall>t \<in> set (take MAX_THREADS_TO_SCAN threads). \<forall>msg \<in> set (getMessages t).
             getId msg \<in> set (emailIdsAlreadyInSheet (preloadCache rows))"
  shows "MJM_processJobApplicationEmails parseDate clock extract scriptStart rows threads = rows"
  using scanThreads_all_known [OF assms]
  by (simp add: MJM_processJobApplicationEmails_def newMessagesList_def)

text \<open>
  C4. The id of a message already recorded in the sheet is not always among the ids a
  run skips: the skip set is built from the cache, and the preload leaves out every row
  whose company is unresolved. The first run over thread \<open>t1\<close> records message \<open>m1\<close> in a
  manual-review row. When the thread comes up again with a second message, \<open>m1\<close> is
  taken up again and a second row is appended for it.
\<close>

theorem C4_manual_review_message_reprocessed:
  "map emailIdCol rows_after_m1 = [''m1'']
   \<and> map companyCol rows_after_m1 = [MANUAL_REVIEW_NEEDED_TEXT]
   \<and> emailIdsAlreadyInSheet (preloadCache rows_after_m1) = []
   \<and> map (\<lambda>m. getId (messageObj m)) (newMessagesList rows_after_m1 [thread_m1_m10]) = [''m1'', ''m10'']
   \<and> map emailIdCol
        (MJM_processJobApplicationEmails (\<lambda>_. None) (\<lambda>_. 9000) (\<lambda>_. ev_unresolved) 8000
           rows_after_m1 [thread_m1_m10])
      = [''m1'', ''m1'', ''m10'']"
  by code_simp

text \<open>
  The sheet keeps one message id per row, the id of the message that last touched it. In
  the second run over the growing Acme thread the first message is skipped; the second
  message then replaces its id in the row, and in the third run the first message is
  taken up again and reconciled a second time.
\<close>

lemma overwritten_id_reprocessed:
  "map (\<lambda>m. getId (messageObj m)) (newMessagesList rows_acme_run1 [thread_acme 2]) = [''m3'']
   \<and> map emailIdCol rows_acme_run2 = [''m3'']
   \<and> map (\<lambda>m. getId (messageObj m)) (newMessagesList rows_acme_run2 [thread_acme 3])
        = [''m2'', ''m6'']
   \<and> map statusCol rows_acme_run2 = [''Interview Scheduled'']
   \<and> map statusCol
        (MJM_processJobApplicationEmails (\<lambda>_. None) (\<lambda>_. 6100) extract_acme 6050 rows_acme_run2
           [thread_acme 3]) = [''Rejected'']
   \<and> map peakStatusCol
        (MJM_processJobApplicationEmails (\<lambda>_. None) (\<lambda>_. 6100) extract_acme 6050 rows_acme_run2
           [thread_acme 3]) = [''Interview Scheduled'']"
  by code_simp

section \<open>Row numbers in the cache\<close>

lemma entries_cachePut_same_set:
  "map_of c k = Some es \<Longrightarrow> set es' = set es \<Longrightarrow>
     set (cacheEntries (cachePut c k es')) = set (cacheEntries c)"
proof (induction c)
  case Nil
  then show ?case by simp
next
  case (Cons p c)
  obtain k' es0 where p: "p = (k', es0)" by (cases p)
  show ?case
  proof (cases "k' = k")
    case True
    then have "es0 = es" using Cons.prems p by simp
    then show ?thesis using True p Cons.prems(2) by (auto simp: cacheEntries_def)
  next
    case False
    then have "map_of c k = Some es" using Cons.prems p by simp
    from Cons.IH [OF this Cons.prems(2)] show ?thesis
      using False p by (auto simp: cacheEntries_def)
  qed
qed

lemma map_of_entries: "map_of c k = Some es \<Longrightarrow> set es \<subseteq> set (cacheEntries c)"
  by (auto simp: cacheEntries_def dest!: map_of_SomeD)

lemma resolveEntry_entries:
  assumes "resolveEntry c exCompany exTitle = Inr (found, c1)"
  shows "set (cacheEntries c1) = set (cacheEntries c)"
proof -
  have "map_of c k = Some ms \<Longrightarrow> sortByRowNumDesc ms = e # es \<Longrightarrow>
          set (cacheEntries (cachePut c k (e # es))) = set (cacheEntries c)" for k ms e es
    by (rule entries_cachePut_same_set) (auto simp: sortByRowNumDesc_def dest: arg_cong [where f = set])
  then show ?thesis
    using assms
    by (auto simp: resolveEntry_def Let_def cacheGet_Own
        split: if_splits property.splits option.splits list.splits)
qed

lemma resolveEntry_found_key:
  assumes "resolveEntry c exCompany exTitle = Inr (Some e, c1)"
  shows "\<exists>ms. map_of c1 (toLowerCase exCompany) = Some ms \<and> e \<in> set ms"
proof -
  have 1: "findByTitle t ms = Some e \<Longrightarrow> e \<in> set ms" for t ms
    by (auto simp: findByTitle_def find_Some_iff)
  show ?thesis
    using assms 1
    by (auto simp: resolveEntry_def Let_def map_of_cachePut cacheGet_Own
        split: property.splits option.splits list.splits if_splits)
qed

lemma resolveEntry_found:
  assumes "resolveEntry c exCompany exTitle = Inr (Some e, c1)"
  shows "e \<in> set (cacheEntries c)"
proof -
  obtain ms where "map_of c1 (toLowerCase exCompany) = Some ms" "e \<in> set ms"
    using resolveEntry_found_key [OF assms] by blast
  then have "e \<in> set (cacheEntries c1)" using map_of_entries by blast
  then show ?thesis using resolveEntry_entries [OF assms] by simp
qed

lemma rowNum_assignFirst:
  "(\<And>e. rowNum (upd e) = rowNum e) \<Longrightarrow> rowNum ` set (assignFirst n upd es) = rowNum ` set es"
  by (induction es) auto

lemma entries_cachePut_rowNums:
  "map_of c k = Some es \<Longrightarrow> rowNum ` set es' = rowNum ` set es \<Longrightarrow>
     rowNum ` set (cacheEntries (cachePut c k es')) = rowNum ` set (cacheEntries c)"
proof (induction c)
  case Nil
  then show ?case by simp
next
  case (Cons p c)
  obtain k' es0 where p: "p = (k', es0)" by (cases p)
  show ?case
  proof (cases "k' = k")
    case True
    then have "es0 = es" using Cons.prems p by simp
    then show ?thesis using True p Cons.prems(2) by (simp add: cacheEntries_def image_Un)
  next
    case False
    then have "map_of c k = Some es" using Cons.prems p by simp
    from Cons.IH [OF this Cons.prems(2)] show ?thesis
      using False p by (simp add: cacheEntries_def image_Un)
  qed
qed

lemma cacheAssign_Inr:
  "cacheAssign c k n upd = Inr c' \<Longrightarrow>
     (\<exists>es. map_of c k = Some es \<and> c' = cachePut c k (assignFirst n upd es)) \<or> c' = c"
  by (auto simp: cacheAssign_def cacheGet_Own split: property.splits)

lemma cacheAssign_rowNums:
  assumes "\<And>e. rowNum (upd e) = rowNum e" and "cacheAssign c k n upd = Inr c'"
  shows "rowNum ` set (cacheEntries c') = rowNum ` set (cacheEntries c)"
  using cacheAssign_Inr [OF assms(2)]
proof
  assume "\<exists>es. map_of c k = Some es \<and> c' = cachePut c k (assignFirst n upd es)"
  then obtain es where es: "map_of c k = Some es" "c' = cachePut c k (assignFirst n upd es)"
    by blast
  show ?thesis
    unfolding es(2) by (rule entries_cachePut_rowNums [OF es(1) rowNum_assignFirst [OF assms(1)]])
next
  assume "c' = c"
  then show ?thesis by simp
qed

lemma preloadRows_rowNums:
  assumes "e \<in> set (cacheEntries (preloadRows n rows c))"
  shows "e \<in> set (cacheEntries c) \<or> (n + 2 \<le> rowNum e \<and> rowNum e < n + 2 + length rows)"
  using assms
proof (induction rows arbitrary: n c)
  case Nil
  then show ?case by simp
next
  case (Cons r rs)
  show ?case
  proof (cases "cachedKey (companyLCKey r)")
    case False
    then have "e \<in> set (cacheEntries c) \<or> (Suc n + 2 \<le> rowNum e \<and> rowNum e < Suc n + 2 + length rs)"
      using Cons.prems by (intro Cons.IH) simp
    then show ?thesis by auto
  next
    case True
    show ?thesis
    proof (cases "cachePush c (companyLCKey r) (loadEntry (n + 2) r)")
      case (Inl err)
      then show ?thesis using Cons.prems True by simp
    next
      case (Inr c')
      then have "e \<in> set (cacheEntries c') \<or> (Suc n + 2 \<le> rowNum e \<and> rowNum e < Suc n + 2 + length rs)"
        using Cons.prems True by (intro Cons.IH) simp
      then show ?thesis
        using entries_cachePush [OF Inr] by (auto simp: loadEntry_def)
    qed
  qed
qed

lemma rowNumsValid_preload: "rowNumsValid (rows, preloadCache rows)"
proof -
  have "cacheEntries [] = []" by (simp add: cacheEntries_def)
  then show ?thesis
    using preloadRows_rowNums [of _ 0 rows "[]"]
    by (fastforce simp: rowNumsValid_def preloadCache_def)
qed

text \<open>
  The loop body, by the outcome of the resolution: the message is dropped, or a row is
  appended and its entry pushed (unless \<open>push\<close> throws), or the row of the entry found is
  rewritten and the entry brought up to date.
\<close>

lemma processMessage_cases:
  obtains
    (thrown) err where "resolveEntry c (extractedCompany ev) (extractedTitle ev) = Inl err"
      and "processMessage parseDate now ev (rows, c) = (rows, c)"
  | (appended) c1 c2 where "resolveEntry c (extractedCompany ev) (extractedTitle ev) = Inr (None, c1)"
      and "processMessage parseDate now ev (rows, c) = (rows @ [newRow now ev], c2)"
      and "c2 = c1 \<or> (\<exists>k. cachePush c1 k (newEntry (length rows + 2) ev) = Inr c2)"
  | (updated) e c1 c2 where "resolveEntry c (extractedCompany ev) (extractedTitle ev) = Inr (Some e, c1)"
      and "processMessage parseDate now ev (rows, c)
             = (writeRow rows (rowNum e) (updateRow parseDate now ev e (readRow rows (rowNum e))), c2)"
      and "cacheAssign c1 (toLowerCase (extractedCompany ev)) (rowNum e)
             (updateEntry ev (updateRow parseDate now ev e (readRow rows (rowNum e)))) = Inr c2"
proof (cases "resolveEntry c (extractedCompany ev) (extractedTitle ev)")
  case (Inl err)
  then show ?thesis by (intro thrown [of err]) (simp_all add: processMessage_def)
next
  case (Inr p)
  obtain found c1 where p: "p = (found, c1)" by (cases p)
  show ?thesis
  proof (cases found)
    case None
    let ?k = "if extractedCompany ev \<noteq> MANUAL_REVIEW_NEEDED_TEXT
              then toLowerCase (extractedCompany ev) else ''_mrev_entry_key_'' @ messageId ev"
    show ?thesis
    proof (cases "cachePush c1 ?k (newEntry (length rows + 2) ev)")
      case (Inl err)
      show ?thesis
        by (rule appended [of c1 c1]) (use Inr p None Inl in \<open>simp_all add: processMessage_def\<close>)
    next
      case push: (Inr c2)
      show ?thesis
      proof (rule appended [of c1 c2])
        show "resolveEntry c (extractedCompany ev) (extractedTitle ev) = Inr (None, c1)"
          using Inr p None by simp
        show "processMessage parseDate now ev (rows, c) = (rows @ [newRow now ev], c2)"
          using Inr p None push by (simp add: processMessage_def)
        show "c2 = c1 \<or> (\<exists>k. cachePush c1 k (newEntry (length rows + 2) ev) = Inr c2)"
          using push by blast
      qed
    qed
  next
    case (Some e)
    let ?r' = "updateRow parseDate now ev e (readRow rows (rowNum e))"
    have res: "resolveEntry c (extractedCompany ev) (extractedTitle ev) = Inr (Some e, c1)"
      using Inr p Some by simp
    obtain ms where "map_of c1 (toLowerCase (extractedCompany ev)) = Some ms"
      using resolveEntry_found_key [OF res] by blast
    then have ca: "cacheAssign c1 (toLowerCase (extractedCompany ev)) (rowNum e) (updateEntry ev ?r')
                 = Inr (cachePut c1 (toLowerCase (extractedCompany ev))
                          (assignFirst (rowNum e) (updateEntry ev ?r') ms))"
      by (simp add: cacheAssign_def cacheGet_def)
    show ?thesis
    proof (rule updated [OF res _ ca])
      show "processMessage parseDate now ev (rows, c)
              = (writeRow rows (rowNum e) ?r',
                 cachePut c1 (toLowerCase (extractedCompany ev))
                   (assignFirst (rowNum e) (updateEntry ev ?r') ms))"
        using res ca by (simp add: processMessage_def Let_def)
    qed
  qed
qed

lemma rowNumsValid_processMessage:
  assumes "rowNumsValid st"
  shows "rowNumsValid (processMessage parseDate now ev st)"
proof -
  obtain rows c where st: "st = (rows, c)" by (cases st)
  have valid: "\<forall>e \<in> set (cacheEntries c). 2 \<le> rowNum e \<and> rowNum e < length rows + 2"
    using assms by (simp add: rowNumsValid_def st)
  show ?thesis
  proof (cases rule: processMessage_cases [of c ev parseDate now rows])
    case (thrown err)
    then show ?thesis using assms by (simp add: st)
  next
    case (appended c1 c2)
    have c1: "set (cacheEntries c1) = set (cacheEntries c)"
      using appended(1) by (rule resolveEntry_entries)
    have "set (cacheEntries c2) \<subseteq> insert (newEntry (length rows + 2) ev) (set (cacheEntries c1))"
      using appended(3) entries_cachePush by blast
    then have "x = newEntry (length rows + 2) ev \<or> x \<in> set (cacheEntries c)"
      if "x \<in> set (cacheEntries c2)" for x
      using that c1 by auto
    then have "\<forall>x \<in> set (cacheEntries c2).
                 2 \<le> rowNum x \<and> rowNum x < length (rows @ [newRow now ev]) + 2"
      using valid by (fastforce simp: newEntry_def)
    then show ?thesis
      by (simp add: st appended(2) rowNumsValid_def)
  next
    case (updated e c1 c2)
    have c1: "set (cacheEntries c1) = set (cacheEntries c)"
      using updated(1) by (rule resolveEntry_entries)
    have "e \<in> set (cacheEntries c)" using updated(1) by (rule resolveEntry_found)
    then have inr: "rowNum e - 2 < length rows" using valid by auto
    have keep: "\<And>r' x. rowNum (updateEntry ev r' x) = rowNum x"
      by (simp add: updateEntry_def)
    have "rowNum ` set (cacheEntries c2) = rowNum ` set (cacheEntries c)"
      using cacheAssign_rowNums [OF keep updated(3)] c1 by simp
    then have "\<forall>x \<in> set (cacheEntries c2). 2 \<le> rowNum x \<and> rowNum x < length rows + 2"
      using valid by (metis (no_types, lifting) image_iff)
    then show ?thesis
      using inr by (simp add: st updated(2) rowNumsValid_def writeRow_def)
  qed
qed

lemma rowNumsValid_processLoop:
  "rowNumsValid st \<Longrightarrow>
     rowNumsValid (processLoop parseDate clock extract scriptStart processedCount ms st)"
  by (induction ms arbitrary: st processedCount) (simp_all add: rowNumsValid_processMessage)

text \<open>
  So every row the loop updates is an existing data row: where identity resolution finds
  an entry, the loop body rewrites that row by \<open>updateRow\<close> with the entry found; where it
  finds none it appends \<open>newRow\<close>; and where it throws the sheet stays as it is.
\<close>

lemma processMessage_rows:
  assumes "rowNumsValid (rows, c)"
  shows "fst (processMessage parseDate now ev (rows, c)) =
           (case resolveEntry c (extractedCompany ev) (extractedTitle ev) of
              Inl err \<Rightarrow> rows
            | Inr (Some e, c1) \<Rightarrow> rows[rowNum e - 2 := updateRow parseDate now ev e (rows ! (rowNum e - 2))]
            | Inr (None, c1) \<Rightarrow> rows @ [newRow now ev])"
proof (cases rule: processMessage_cases [of c ev parseDate now rows])
  case (thrown err)
  then show ?thesis by simp
next
  case (appended c1 c2)
  then show ?thesis by simp
next
  case (updated e c1 c2)
  have "e \<in> set (cacheEntries c)" using updated(1) by (rule resolveEntry_found)
  then have "rowNum e - 2 < length rows"
    using assms by (auto simp: rowNumsValid_def)
  then show ?thesis
    using updated(1,2) by (simp add: readRow_def writeRow_def)
qed

section \<open>The loop keeps every cache entry in step with its row\<close>

lemma mset_cachePut:
  "map_of c k = Some es \<Longrightarrow>
     mset (cacheEntries (cachePut c k es')) + mset es = mset (cacheEntries c) + mset es'"
proof (induction c)
  case Nil
  then show ?case by simp
next
  case (Cons p c)
  obtain k' es0 where p: "p = (k', es0)" by (cases p)
  show ?case
  proof (cases "k' = k")
    case True
    then have "es0 = es" using Cons.prems p by simp
    then show ?thesis using True p by (simp add: cacheEntries_def)
  next
    case False
    then have "map_of c k = Some es" using Cons.prems p by simp
    from Cons.IH [OF this] show ?thesis
      using False p by (simp add: cacheEntries_def add.assoc)
  qed
qed

lemma mset_cachePut_None:
  "map_of c k = None \<Longrightarrow> mset (cacheEntries (cachePut c k es')) = mset (cacheEntries c) + mset es'"
proof (induction c)
  case Nil
  then show ?case by (simp add: cacheEntries_def)
next
  case (Cons p c)
  obtain k' es0 where p: "p = (k', es0)" by (cases p)
  have "k' \<noteq> k" and "map_of c k = None"
    using Cons.prems p by (auto split: if_splits)
  from Cons.IH [OF this(2)] show ?case
    using \<open>k' \<noteq> k\<close> p by (simp add: cacheEntries_def)
qed

lemma mset_cachePush:
  assumes "cachePush c k e = Inr c'"
  shows "mset (cacheEntries c') = add_mset e (mset (cacheEntries c))"
proof (cases "map_of c k")
  case None
  then show ?thesis using assms by (simp add: cachePush_Inr mset_cachePut_None)
next
  case (Some es)
  from mset_cachePut [OF this, of "es @ [e]"] show ?thesis
    using Some assms by (simp add: cachePush_Inr)
qed

lemma mset_resolveEntry:
  assumes "resolveEntry c exCompany exTitle = Inr (found, c1)"
  shows "mset (cacheEntries c1) = mset (cacheEntries c)"
proof -
  have "map_of c k = Some ms \<Longrightarrow> sortByRowNumDesc ms = e # es \<Longrightarrow>
          mset (cacheEntries (cachePut c k (e # es))) = mset (cacheEntries c)" for k ms e es
  proof -
    assume a: "map_of c k = Some ms" "sortByRowNumDesc ms = e # es"
    have m: "mset (e # es) = mset ms"
      using a(2) by (metis sortByRowNumDesc_def mset_sort)
    have "mset (cacheEntries (cachePut c k (e # es))) + mset ms
            = mset (cacheEntries c) + mset (e # es)"
      by (rule mset_cachePut [OF a(1)])
    then have "mset (cacheEntries (cachePut c k (e # es))) + mset ms
            = mset (cacheEntries c) + mset ms"
      by (simp only: m)
    then show ?thesis by simp
  qed
  then show ?thesis
    using assms
    by (auto simp: resolveEntry_def Let_def cacheGet_Own
        split: if_splits property.splits option.splits list.splits)
qed

lemma map_rowNum_assignFirst:
  "(\<And>e. rowNum (upd e) = rowNum e) \<Longrightarrow> map rowNum (assignFirst n upd es) = map rowNum es"
  by (induction es) auto

lemma mset_rowNum_cacheAssign:
  assumes "\<And>e. rowNum (upd e) = rowNum e" and "cacheAssign c k n upd = Inr c'"
  shows "image_mset rowNum (mset (cacheEntries c')) = image_mset rowNum (mset (cacheEntries c))"
  using cacheAssign_Inr [OF assms(2)]
proof
  assume "c' = c"
  then show ?thesis by simp
next
  assume "\<exists>es. map_of c k = Some es \<and> c' = cachePut c k (assignFirst n upd es)"
  then obtain es where es: "map_of c k = Some es" "c' = cachePut c k (assignFirst n upd es)"
    by blast
  have "image_mset rowNum (mset (assignFirst n upd es)) = image_mset rowNum (mset es)"
    using map_rowNum_assignFirst [OF assms(1), of n es]
    by (metis mset_map)
  moreover have "image_mset rowNum (mset (cacheEntries (cachePut c k (assignFirst n upd es))))
                   + image_mset rowNum (mset es)
                 = image_mset rowNum (mset (cacheEntries c))
                   + image_mset rowNum (mset (assignFirst n upd es))"
    using mset_cachePut [OF es(1), of "assignFirst n upd es"]
    by (metis image_mset_union)
  ultimately show ?thesis
    by (simp add: es(2))
qed

lemma distinct_rowNum_mset:
  "image_mset rowNum (mset es') = image_mset rowNum (mset es) \<Longrightarrow>
     distinct (map rowNum es') \<longleftrightarrow> distinct (map rowNum es)"
  by (metis mset_eq_imp_distinct_iff mset_map)

text \<open>What \<open>Object.assign\<close> leaves in the cache: old entries, or updated ones of that row.\<close>

lemma set_assignFirst:
  "set (assignFirst n upd es) \<subseteq> set es \<union> {upd x | x. x \<in> set es \<and> rowNum x = n}"
  by (induction es) auto

lemma assignFirst_hit:
  "x \<in> set es \<Longrightarrow> rowNum x = n \<Longrightarrow> \<exists>y \<in> set es. rowNum y = n \<and> upd y \<in> set (assignFirst n upd es)"
  by (induction es) auto

lemma set_cachePut:
  "map_of c k = Some es \<Longrightarrow>
     set es' \<subseteq> set (cacheEntries (cachePut c k es'))
     \<and> set (cacheEntries (cachePut c k es')) \<subseteq> set (cacheEntries c) \<union> set es'"
proof (induction c)
  case Nil
  then show ?case by simp
next
  case (Cons p c)
  obtain k' es0 where p: "p = (k', es0)" by (cases p)
  show ?case
  proof (cases "k' = k")
    case True
    then show ?thesis using p by (auto simp: cacheEntries_def)
  next
    case False
    then have "map_of c k = Some es" using Cons.prems p by simp
    from Cons.IH [OF this] show ?thesis
      using False p by (auto simp: cacheEntries_def)
  qed
qed

lemma preloadRows_shape:
  assumes "e \<in> set (cacheEntries (preloadRows n rows c))"
  shows "e \<in> set (cacheEntries c) \<or> (\<exists>i < length rows. e = loadEntry (n + i + 2) (rows ! i))"
  using assms
proof (induction rows arbitrary: n c)
  case Nil
  then show ?case by simp
next
  case (Cons r rs)
  have step: "e \<in> set (cacheEntries c) \<or> (\<exists>i < length (r # rs). e = loadEntry (n + i + 2) ((r # rs) ! i))"
    if "e \<in> set (cacheEntries c')"
      and "set (cacheEntries c') \<subseteq> insert (loadEntry (n + 2) r) (set (cacheEntries c))"
      and "\<And>x. x \<in> set (cacheEntries (preloadRows (Suc n) rs c')) \<Longrightarrow>
             x \<in> set (cacheEntries c') \<or> (\<exists>i < length rs. x = loadEntry (Suc n + i + 2) (rs ! i))"
    for c'
  proof -
    from that(1,2) have "e \<in> set (cacheEntries c) \<or> e = loadEntry (n + 0 + 2) ((r # rs) ! 0)"
      by auto
    then show ?thesis by auto
  qed
  have later: "\<exists>i < length (r # rs). e = loadEntry (n + i + 2) ((r # rs) ! i)"
    if "\<exists>i < length rs. e = loadEntry (Suc n + i + 2) (rs ! i)"
  proof -
    from that obtain i where "i < length rs" "e = loadEntry (Suc n + i + 2) (rs ! i)" by blast
    then have "Suc i < length (r # rs) \<and> e = loadEntry (n + Suc i + 2) ((r # rs) ! Suc i)"
      by simp
    then show ?thesis by blast
  qed
  show ?case
  proof (cases "cachedKey (companyLCKey r)")
    case False
    then have "e \<in> set (cacheEntries c) \<or> (\<exists>i < length rs. e = loadEntry (Suc n + i + 2) (rs ! i))"
      using Cons.prems by (intro Cons.IH) simp
    then show ?thesis using later by blast
  next
    case True
    show ?thesis
    proof (cases "cachePush c (companyLCKey r) (loadEntry (n + 2) r)")
      case (Inl err)
      then show ?thesis using Cons.prems True by simp
    next
      case (Inr c')
      then have "e \<in> set (cacheEntries c') \<or> (\<exists>i < length rs. e = loadEntry (Suc n + i + 2) (rs ! i))"
        using Cons.prems True by (intro Cons.IH) simp
      then show ?thesis
      proof
        assume "e \<in> set (cacheEntries c')"
        then have "e \<in> set (cacheEntries c) \<or> e = loadEntry (n + 0 + 2) ((r # rs) ! 0)"
          using entries_cachePush [OF Inr] by auto
        then show ?thesis by auto
      next
        assume "\<exists>i < length rs. e = loadEntry (Suc n + i + 2) (rs ! i)"
        then show ?thesis using later by blast
      qed
    qed
  qed
qed

lemma preloadRows_distinct:
  assumes "distinct (map rowNum (cacheEntries c))"
    and "\<forall>e \<in> set (cacheEntries c). rowNum e < n + 2"
  shows "distinct (map rowNum (cacheEntries (preloadRows n rows c)))"
  using assms
proof (induction rows arbitrary: n c)
  case Nil
  then show ?case by simp
next
  case (Cons r rs)
  let ?e = "loadEntry (n + 2) r"
  show ?case
  proof (cases "cachedKey (companyLCKey r)")
    case False
    have "\<forall>e \<in> set (cacheEntries c). rowNum e < Suc n + 2"
      using Cons.prems(2) by auto
    from Cons.IH [OF Cons.prems(1) this] show ?thesis using False by simp
  next
    case True
    show ?thesis
    proof (cases "cachePush c (companyLCKey r) ?e")
      case (Inl err)
      then show ?thesis using Cons.prems(1) True by simp
    next
      case (Inr c')
      have "mset (map rowNum (cacheEntries c')) = mset (rowNum ?e # map rowNum (cacheEntries c))"
        by (simp add: mset_cachePush [OF Inr])
      then have "distinct (map rowNum (cacheEntries c'))
                   \<longleftrightarrow> distinct (rowNum ?e # map rowNum (cacheEntries c))"
        by (rule mset_eq_imp_distinct_iff)
      moreover have "rowNum ?e \<notin> rowNum ` set (cacheEntries c)"
        using Cons.prems(2) by (auto simp: loadEntry_def)
      ultimately have d: "distinct (map rowNum (cacheEntries c'))"
        using Cons.prems(1) by simp
      have b: "\<forall>e \<in> set (cacheEntries c'). rowNum e < Suc n + 2"
        using Cons.prems(2) entries_cachePush [OF Inr] by (auto simp: loadEntry_def)
      from Cons.IH [OF d b] show ?thesis using True Inr by simp
    qed
  qed
qed

lemma loopInv_preload: "loopInv (rows, preloadCache rows)"
proof -
  have e0: "cacheEntries [] = []" by (simp add: cacheEntries_def)
  have "distinct (map rowNum (cacheEntries (preloadCache rows)))"
    unfolding preloadCache_def by (rule preloadRows_distinct) (simp_all add: e0)
  moreover have "peakInSync \<lparr>sheetRow = rows ! (rowNum e - 2), cacheItem = e\<rparr>"
    if "e \<in> set (cacheEntries (preloadCache rows))" for e
  proof -
    from that obtain i where "i < length rows" "e = loadEntry (i + 2) (rows ! i)"
      using preloadRows_shape [of e 0 rows "[]"] by (auto simp: preloadCache_def e0)
    then show ?thesis by (simp add: peakInSync_def loadEntry_def)
  qed
  ultimately show ?thesis
    using rowNumsValid_preload [of rows] by (simp add: loopInv_def)
qed

lemma distinct_rowNum_eq:
  "distinct (map rowNum es) \<Longrightarrow> a \<in> set es \<Longrightarrow> b \<in> set es \<Longrightarrow> rowNum a = rowNum b \<Longrightarrow> a = b"
  by (meson distinct_map inj_onD)

lemma loopInv_processMessage:
  assumes "loopInv st"
  shows "loopInv (processMessage parseDate now ev st)"
proof -
  obtain rows c where st: "st = (rows, c)" by (cases st)
  have v': "rowNumsValid (processMessage parseDate now ev st)"
    using assms by (intro rowNumsValid_processMessage) (simp add: loopInv_def)
  show ?thesis
  proof (cases rule: processMessage_cases [of c ev parseDate now rows])
    case (thrown err)
    then show ?thesis using assms by (simp add: st)
  next
    case (appended c1 c2)
    have m1: "mset (cacheEntries c1) = mset (cacheEntries c)"
      using appended(1) by (rule mset_resolveEntry)
    then have s1: "set (cacheEntries c1) = set (cacheEntries c)"
      by (rule mset_eq_setD)
    have valid: "\<forall>e \<in> set (cacheEntries c1). 2 \<le> rowNum e \<and> rowNum e < length rows + 2"
      using assms s1 by (simp add: loopInv_def rowNumsValid_def st)
    have "distinct (map rowNum (cacheEntries c))"
      using assms by (simp add: loopInv_def st)
    moreover have "mset (map rowNum (cacheEntries c1)) = mset (map rowNum (cacheEntries c))"
      by (simp add: m1)
    ultimately have dist: "distinct (map rowNum (cacheEntries c1))"
      using mset_eq_imp_distinct_iff by blast
    have sync: "\<forall>e \<in> set (cacheEntries c1).
                  peakInSync \<lparr>sheetRow = rows ! (rowNum e - 2), cacheItem = e\<rparr>"
      using assms s1 by (simp add: loopInv_def st)
    let ?ne = "newEntry (length rows + 2) ev"
    have both: "distinct (map rowNum (cacheEntries c2))
                  \<and> set (cacheEntries c2) \<subseteq> insert ?ne (set (cacheEntries c1))"
    proof (cases "c2 = c1")
      case True
      then show ?thesis using dist by auto
    next
      case False
      then obtain k where push: "cachePush c1 k ?ne = Inr c2"
        using appended(3) by blast
      have "mset (map rowNum (cacheEntries c2)) = mset (rowNum ?ne # map rowNum (cacheEntries c1))"
        by (simp add: mset_cachePush [OF push])
      then have "distinct (map rowNum (cacheEntries c2))
                   \<longleftrightarrow> distinct (rowNum ?ne # map rowNum (cacheEntries c1))"
        by (rule mset_eq_imp_distinct_iff)
      moreover have "rowNum ?ne \<notin> rowNum ` set (cacheEntries c1)"
        using valid by (auto simp: newEntry_def)
      ultimately have "distinct (map rowNum (cacheEntries c2))"
        using dist by simp
      then show ?thesis
        using entries_cachePush [OF push] by simp
    qed
    then have d': "distinct (map rowNum (cacheEntries c2))"
      and sub: "set (cacheEntries c2) \<subseteq> insert ?ne (set (cacheEntries c1))"
      by simp_all
    have "peakInSync \<lparr>sheetRow = (rows @ [newRow now ev]) ! (rowNum e - 2), cacheItem = e\<rparr>"
      if "e \<in> set (cacheEntries c2)" for e
    proof -
      from that sub have "e = ?ne \<or> e \<in> set (cacheEntries c1)" by auto
      then show ?thesis
      proof
        assume "e = ?ne"
        then show ?thesis by (simp add: newEntry_def newRow_def peakInSync_def)
      next
        assume e: "e \<in> set (cacheEntries c1)"
        then have "rowNum e - 2 < length rows" using valid by auto
        then show ?thesis using sync e by (simp add: nth_append)
      qed
    qed
    then show ?thesis
      using v' d' by (simp add: loopInv_def st appended(2))
  next
    case (updated e c1 c2)
    have m1: "mset (cacheEntries c1) = mset (cacheEntries c)"
      using updated(1) by (rule mset_resolveEntry)
    then have s1: "set (cacheEntries c1) = set (cacheEntries c)"
      by (rule mset_eq_setD)
    have valid: "\<forall>e \<in> set (cacheEntries c1). 2 \<le> rowNum e \<and> rowNum e < length rows + 2"
      using assms s1 by (simp add: loopInv_def rowNumsValid_def st)
    have "distinct (map rowNum (cacheEntries c))"
      using assms by (simp add: loopInv_def st)
    moreover have "mset (map rowNum (cacheEntries c1)) = mset (map rowNum (cacheEntries c))"
      by (simp add: m1)
    ultimately have dist: "distinct (map rowNum (cacheEntries c1))"
      using mset_eq_imp_distinct_iff by blast
    have sync: "\<forall>e \<in> set (cacheEntries c1).
                  peakInSync \<lparr>sheetRow = rows ! (rowNum e - 2), cacheItem = e\<rparr>"
      using assms s1 by (simp add: loopInv_def st)
    define n where "n = rowNum e"
    define k where "k = toLowerCase (extractedCompany ev)"
    define r' where "r' = updateRow parseDate now ev e (readRow rows n)"
    define upd where "upd = updateEntry ev r'"
    have keep: "\<And>x. rowNum (upd x) = rowNum x" by (simp add: upd_def updateEntry_def)
    have peak_upd: "\<And>x. peakStatus (upd x) = peakStatusCol r'" by (simp add: upd_def updateEntry_def)
    obtain ms where ms: "map_of c1 k = Some ms" "e \<in> set ms"
      using resolveEntry_found_key [OF updated(1)] unfolding k_def by blast
    have msub: "set ms \<subseteq> set (cacheEntries c1)" using ms(1) by (rule map_of_entries)
    then have e1: "e \<in> set (cacheEntries c1)" using ms(2) by blast
    then have inr: "n - 2 < length rows" and ge: "2 \<le> n" using valid by (auto simp: n_def)
    have pm: "processMessage parseDate now ev st = (rows[n - 2 := r'], c2)"
      using inr by (simp add: st updated(2) writeRow_def n_def r'_def)
    have ca: "cacheAssign c1 k n upd = Inr c2"
      using updated(3) by (simp add: k_def n_def upd_def r'_def)
    then have c2: "c2 = cachePut c1 k (assignFirst n upd ms)"
      using ms(1) by (simp add: cacheAssign_def cacheGet_def)
    have "image_mset rowNum (mset (cacheEntries c2)) = image_mset rowNum (mset (cacheEntries c1))"
      by (rule mset_rowNum_cacheAssign [OF keep ca])
    from distinct_rowNum_mset [OF this] have d': "distinct (map rowNum (cacheEntries c2))"
      using dist by simp
    note put = set_cachePut [OF ms(1), of "assignFirst n upd ms", folded c2]
    have sub: "set (cacheEntries c2)
                 \<subseteq> set (cacheEntries c1) \<union> {upd x | x. x \<in> set ms \<and> rowNum x = n}"
      using put set_assignFirst [of n upd ms] msub by blast
    obtain y0 where y0: "y0 \<in> set ms" "rowNum y0 = n" "upd y0 \<in> set (cacheEntries c2)"
      using assignFirst_hit [of e ms n upd] ms(2) put by (auto simp: n_def)
    have "y0 = e"
    proof (rule distinct_rowNum_eq [OF dist])
      show "y0 \<in> set (cacheEntries c1)" using y0(1) msub by blast
      show "e \<in> set (cacheEntries c1)" by (rule e1)
      show "rowNum y0 = rowNum e" using y0(2) by (simp add: n_def)
    qed
    have "peakInSync \<lparr>sheetRow = rows[n - 2 := r'] ! (rowNum y - 2), cacheItem = y\<rparr>"
      if y: "y \<in> set (cacheEntries c2)" for y
    proof (cases "rowNum y = n")
      case True
      have "y = upd y0"
      proof (rule distinct_rowNum_eq [OF d' y y0(3)])
        show "rowNum y = rowNum (upd y0)" using True y0(2) keep by simp
      qed
      then show ?thesis
        using True inr by (simp add: peakInSync_def peak_upd)
    next
      case False
      then have y1: "y \<in> set (cacheEntries c1)"
        using sub y keep by auto
      then have "2 \<le> rowNum y" using valid by auto
      then have "rowNum y - 2 \<noteq> n - 2" using False ge by auto
      then show ?thesis using sync y1 by simp
    qed
    then show ?thesis
      using v' d' by (simp add: loopInv_def pm)
  qed
qed

lemma loopInv_processLoop:
  "loopInv st \<Longrightarrow>
     loopInv (processLoop parseDate clock extract scriptStart processedCount ms st)"
  by (induction ms arbitrary: st processedCount) (simp_all add: loopInv_processMessage)

section \<open>A whole run: peaks and accepted rows\<close>

lemma processMessage_peak_mono:
  assumes "loopInv st"
  shows "length (fst st) \<le> length (fst (processMessage parseDate now ev st))
         \<and> (\<forall>i < length (fst st).
               hierarchyRank (peakStatusCol (fst st ! i)) (-2)
                 \<le> hierarchyRank (peakStatusCol (fst (processMessage parseDate now ev st) ! i)) (-2))"
proof -
  obtain rows c where st: "st = (rows, c)" by (cases st)
  have v: "rowNumsValid (rows, c)" using assms by (simp add: loopInv_def st)
  show ?thesis
  proof (cases rule: processMessage_cases [of c ev parseDate now rows])
    case (thrown err)
    then show ?thesis by (simp add: st)
  next
    case (appended c1 c2)
    then show ?thesis by (simp add: st nth_append)
  next
    case (updated e c1 c2)
    have e: "e \<in> set (cacheEntries c)" using updated(1) by (rule resolveEntry_found)
    define j where "j = rowNum e - 2"
    have j: "j < length rows" using v e by (auto simp: rowNumsValid_def j_def)
    have pm: "fst (processMessage parseDate now ev (rows, c))
                = rows[j := updateRow parseDate now ev e (rows ! j)]"
      using j by (simp add: updated(2) writeRow_def readRow_def j_def)
    have "peakInSync \<lparr>sheetRow = rows ! j, cacheItem = e\<rparr>"
      using assms e by (simp add: loopInv_def st j_def)
    from peakRead_rank [OF this]
    have "hierarchyRank (peakStatusCol (rows ! j)) (-2)
            \<le> hierarchyRank (peakRead e (rows ! j)) (-2)"
      by simp
    also have "\<dots> \<le> hierarchyRank (mergePeak (peakRead e (rows ! j)) (mergeStatus ev (rows ! j))) (-2)"
      by (rule mergePeak_rank)
    finally have "hierarchyRank (peakStatusCol (rows ! j)) (-2)
            \<le> hierarchyRank (peakStatusCol (updateRow parseDate now ev e (rows ! j))) (-2)"
      by (simp add: updateRow_def Let_def)
    then show ?thesis
      using j by (auto simp: st pm nth_list_update)
  qed
qed

lemma processLoop_peak_mono:
  assumes "loopInv st"
  shows "length (fst st)
           \<le> length (fst (processLoop parseDate clock extract scriptStart processedCount ms st))
         \<and> (\<forall>i < length (fst st).
               hierarchyRank (peakStatusCol (fst st ! i)) (-2)
                 \<le> hierarchyRank (peakStatusCol
                      (fst (processLoop parseDate clock extract scriptStart processedCount ms st) ! i)) (-2))"
  using assms
proof (induction ms arbitrary: st processedCount)
  case Nil
  then show ?case by simp
next
  case (Cons m ms)
  let ?st' = "processMessage parseDate (clock (messageObj m)) (eventOf extract (messageObj m)) st"
  note one = processMessage_peak_mono [OF Cons.prems, of parseDate "clock (messageObj m)"
      "eventOf extract (messageObj m)"]
  have inv': "loopInv ?st'" using Cons.prems by (rule loopInv_processMessage)
  note more = Cons.IH [OF inv', of "Suc processedCount"]
  show ?case
  proof (cases "processedCount \<ge> MAX_MESSAGES_TO_PROCESS_THIS_RUN
                  \<or> clock (messageObj m) - scriptStart > 330 * 1000")
    case True
    then show ?thesis by simp
  next
    case False
    have "length (fst st) \<le> length (fst ?st')" using one by simp
    moreover have "\<And>i. i < length (fst st) \<Longrightarrow>
        hierarchyRank (peakStatusCol (fst st ! i)) (-2)
          \<le> hierarchyRank (peakStatusCol
                (fst (processLoop parseDate clock extract scriptStart (Suc processedCount) ms ?st') ! i)) (-2)"
    proof -
      fix i assume i: "i < length (fst st)"
      then have "hierarchyRank (peakStatusCol (fst st ! i)) (-2)
                   \<le> hierarchyRank (peakStatusCol (fst ?st' ! i)) (-2)"
        using one by simp
      also have "\<dots> \<le> hierarchyRank (peakStatusCol
                (fst (processLoop parseDate clock extract scriptStart (Suc processedCount) ms ?st') ! i)) (-2)"
        using more i one by simp
      finally show "hierarchyRank (peakStatusCol (fst st ! i)) (-2)
          \<le> hierarchyRank (peakStatusCol
                (fst (processLoop parseDate clock extract scriptStart (Suc processedCount) ms ?st') ! i)) (-2)" .
    qed
    ultimately show ?thesis
      using False more by simp
  qed
qed

text \<open>
  Over a whole run of \<open>MJM_processJobApplicationEmails\<close> no row disappears and no row's
  peak loses rank.
\<close>

lemma run_peak_monotone:
  "length rows
     \<le> length (MJM_processJobApplicationEmails parseDate clock extract scriptStart rows threads)
   \<and> (\<forall>i < length rows.
         hierarchyRank (peakStatusCol (rows ! i)) (-2)
           \<le> hierarchyRank (peakStatusCol
                (MJM_processJobApplicationEmails parseDate clock extract scriptStart rows threads ! i)) (-2))"
  using processLoop_peak_mono [OF loopInv_preload, of rows parseDate clock "extract" scriptStart 0
      "newMessagesList rows (take MAX_THREADS_TO_SCAN threads)"]
  by (simp add: MJM_processJobApplicationEmails_def)

lemma updateRow_accepted:
  "statusCol r = MJM_APP_ACCEPTED_STATUS \<Longrightarrow>
     statusCol (updateRow parseDate now ev e r) = MJM_APP_ACCEPTED_STATUS"
  using statusCol_step_accepted [of "\<lparr>sheetRow = r, cacheItem = e\<rparr>" parseDate "Reconcile now ev"]
  by (simp add: reconcile_def Let_def)

lemma processMessage_accepted:
  assumes "rowNumsValid st" and "i < length (fst st)"
    and "statusCol (fst st ! i) = MJM_APP_ACCEPTED_STATUS"
  shows "i < length (fst (processMessage parseDate now ev st))
         \<and> statusCol (fst (processMessage parseDate now ev st) ! i) = MJM_APP_ACCEPTED_STATUS"
proof -
  obtain rows c where st: "st = (rows, c)" by (cases st)
  have v: "rowNumsValid (rows, c)" using assms(1) by (simp add: st)
  show ?thesis
  proof (cases rule: processMessage_cases [of c ev parseDate now rows])
    case (thrown err)
    then show ?thesis using assms(2,3) by (simp add: st)
  next
    case (appended c1 c2)
    then show ?thesis using assms(2,3) by (simp add: st nth_append)
  next
    case (updated e c1 c2)
    have "e \<in> set (cacheEntries c)" using updated(1) by (rule resolveEntry_found)
    then have j: "rowNum e - 2 < length rows" using v by (auto simp: rowNumsValid_def)
    have pm: "fst (processMessage parseDate now ev (rows, c))
                = rows[rowNum e - 2 := updateRow parseDate now ev e (rows ! (rowNum e - 2))]"
      using j by (simp add: updated(2) writeRow_def readRow_def)
    show ?thesis
      using assms(2,3) updateRow_accepted [of "rows ! i" parseDate now ev e]
      by (cases "i = rowNum e - 2") (simp_all add: st pm)
  qed
qed

lemma processLoop_accepted:
  assumes "rowNumsValid st" and "i < length (fst st)"
    and "statusCol (fst st ! i) = MJM_APP_ACCEPTED_STATUS"
  shows "i < length (fst (processLoop parseDate clock extract scriptStart processedCount ms st))
         \<and> statusCol (fst (processLoop parseDate clock extract scriptStart processedCount ms st) ! i)
             = MJM_APP_ACCEPTED_STATUS"
  using assms
proof (induction ms arbitrary: st processedCount)
  case Nil
  then show ?case by simp
next
  case (Cons m ms)
  let ?st' = "processMessage parseDate (clock (messageObj m)) (eventOf extract (messageObj m)) st"
  have v': "rowNumsValid ?st'" using Cons.prems(1) by (rule rowNumsValid_processMessage)
  note one = processMessage_accepted [OF Cons.prems, of parseDate "clock (messageObj m)"
      "eventOf extract (messageObj m)"]
  from Cons.IH [OF v' conjunct1 [OF one] conjunct2 [OF one], of "Suc processedCount"]
  show ?case using Cons.prems by simp
qed

text \<open>Over a whole run a row whose status cell is \<open>Offer Accepted\<close> keeps that status.\<close>

lemma run_accepted_absorbing:
  assumes "i < length rows" and "statusCol (rows ! i) = MJM_APP_ACCEPTED_STATUS"
  shows "statusCol (MJM_processJobApplicationEmails parseDate clock extract scriptStart rows threads ! i)
           = MJM_APP_ACCEPTED_STATUS"
  using processLoop_accepted [of "(rows, preloadCache rows)" i parseDate clock "extract" scriptStart 0
      "newMessagesList rows (take MAX_THREADS_TO_SCAN threads)"] assms rowNumsValid_preload [of rows]
  by (simp add: MJM_processJobApplicationEmails_def)

lemma processMessage_peak_clean:
  assumes "loopInv st"
    and "\<forall>r \<in> set (fst st). trim (peakStatusCol r) \<notin> set excludedPeak"
    and "trim (finalStatusToLog ev) \<in> set excludedPeak \<longrightarrow> finalStatusToLog ev \<in> set excludedPeak"
  shows "\<forall>r \<in> set (fst (processMessage parseDate now ev st)).
           trim (peakStatusCol r) \<notin> set excludedPeak"
proof -
  obtain rows c where st: "st = (rows, c)" by (cases st)
  have v: "rowNumsValid (rows, c)" using assms(1) by (simp add: loopInv_def st)
  show ?thesis
  proof (cases rule: processMessage_cases [of c ev parseDate now rows])
    case (thrown err)
    then show ?thesis using assms(2) by (simp add: st)
  next
    case (appended c1 c2)
    have "peakClean (created now 0 ev)" using assms(3) by (rule peakClean_created)
    then have "trim (peakStatusCol (newRow now ev)) \<notin> set excludedPeak"
      by (simp add: peakClean_def created_def)
    then show ?thesis using appended(2) assms(2) by (auto simp: st)
  next
    case (updated e c1 c2)
    have e: "e \<in> set (cacheEntries c)" using updated(1) by (rule resolveEntry_found)
    define j where "j = rowNum e - 2"
    have j: "j < length rows" using v e by (auto simp: rowNumsValid_def j_def)
    have pm: "fst (processMessage parseDate now ev (rows, c))
                = rows[j := updateRow parseDate now ev e (rows ! j)]"
      using j by (simp add: updated(2) writeRow_def readRow_def j_def)
    have "peakClean \<lparr>sheetRow = rows ! j, cacheItem = e\<rparr>"
      using assms(1,2) e j by (simp add: loopInv_def st j_def peakClean_def)
    from mergePeak_clean [OF peakRead_clean [OF this]]
    have "trim (peakStatusCol (updateRow parseDate now ev e (rows ! j))) \<notin> set excludedPeak"
      by (simp add: updateRow_def Let_def)
    moreover have "set (rows[j := updateRow parseDate now ev e (rows ! j)])
                     \<subseteq> insert (updateRow parseDate now ev e (rows ! j)) (set rows)"
      by (rule set_update_subset_insert)
    ultimately show ?thesis
      using assms(2) by (auto simp: st pm)
  qed
qed

lemma finalStatusToLog_eventOf: "finalStatusToLog (eventOf f msg) = finalStatusToLog (f msg)"
  by (simp add: finalStatusToLog_def eventOf_def)

lemma processLoop_peak_clean:
  assumes "loopInv st"
    and "\<forall>r \<in> set (fst st). trim (peakStatusCol r) \<notin> set excludedPeak"
    and "\<forall>msg. trim (finalStatusToLog (extract msg)) \<in> set excludedPeak
               \<longrightarrow> finalStatusToLog (extract msg) \<in> set excludedPeak"
  shows "\<forall>r \<in> set (fst (processLoop parseDate clock extract scriptStart processedCount ms st)).
           trim (peakStatusCol r) \<notin> set excludedPeak"
  using assms(1,2)
proof (induction ms arbitrary: st processedCount)
  case Nil
  then show ?case by simp
next
  case (Cons m ms)
  let ?ev = "eventOf extract (messageObj m)"
  let ?st' = "processMessage parseDate (clock (messageObj m)) ?ev st"
  have inv': "loopInv ?st'" using Cons.prems(1) by (rule loopInv_processMessage)
  have "trim (finalStatusToLog ?ev) \<in> set excludedPeak \<longrightarrow> finalStatusToLog ?ev \<in> set excludedPeak"
    using assms(3) by (simp add: finalStatusToLog_eventOf)
  from processMessage_peak_clean [OF Cons.prems this]
  have "\<forall>r \<in> set (fst ?st'). trim (peakStatusCol r) \<notin> set excludedPeak" .
  from Cons.IH [OF inv' this, of "Suc processedCount"]
  show ?case using Cons.prems(2) by simp
qed

text \<open>
  Over a whole run no peak cell comes to hold an excluded status, as long as no message's
  extracted status is an excluded status with white space around it.
\<close>

lemma run_peak_not_excluded:
  assumes "\<forall>r \<in> set rows. trim (peakStatusCol r) \<notin> set excludedPeak"
    and "\<forall>msg. trim (finalStatusToLog (extract msg)) \<in> set excludedPeak
               \<longrightarrow> finalStatusToLog (extract msg) \<in> set excludedPeak"
  shows "\<forall>r \<in> set (MJM_processJobApplicationEmails parseDate clock extract scriptStart rows threads).
           peakStatusCol r \<notin> set excludedPeak"
proof -
  have "\<forall>r \<in> set (MJM_processJobApplicationEmails parseDate clock extract scriptStart rows threads).
           trim (peakStatusCol r) \<notin> set excludedPeak"
    unfolding MJM_processJobApplicationEmails_def
    by (rule processLoop_peak_clean [OF loopInv_preload _ assms(2)]) (simp add: assms(1))
  then show ?thesis
    using excluded_trimmed by fastforce
qed

end
